theory Spec2Isabelle
  imports Complex_Main "HOL-Library.Sublist" "HOL-Library.Char_ord" "HOL-Library.List_Lexorder"
begin

section \<open>Python strings\<close>

text \<open>
  A Python \<open>str\<close> is modelled as a \<open>string\<close>, one \<open>char\<close> per code point, so the
  model covers the code points below 256 (ASCII and Latin-1). The character classes below
  are those of Python for these code points.
\<close>

definition is_space :: "char \<Rightarrow> bool" where
  \<comment> \<open>\<open>str.isspace\<close>, which is also what \<open>str.strip()\<close> removes and what \<open>\s\<close> matches\<close>
  "is_space c =
     (let n = (of_char c :: nat)
      in (9 \<le> n \<and> n \<le> 13) \<or> (28 \<le> n \<and> n \<le> 32) \<or> n = 133 \<or> n = 160)"

definition is_upper_char :: "char \<Rightarrow> bool" where
  "is_upper_char c =
     (let n = (of_char c :: nat)
      in (65 \<le> n \<and> n \<le> 90) \<or> (192 \<le> n \<and> n \<le> 222 \<and> n \<noteq> 215))"

definition lower_char :: "char \<Rightarrow> char" where
  "lower_char c = (if is_upper_char c then char_of (of_char c + (32::nat)) else c)"

definition lower :: "string \<Rightarrow> string" where
  \<comment> \<open>\<open>s.lower()\<close>\<close>
  "lower s = map lower_char s"

definition lstrip :: "string \<Rightarrow> string" where
  "lstrip s = dropWhile is_space s"

definition rstrip :: "string \<Rightarrow> string" where
  "rstrip s = rev (dropWhile is_space (rev s))"

definition strip :: "string \<Rightarrow> string" where
  \<comment> \<open>\<open>s.strip()\<close>\<close>
  "strip s = rstrip (lstrip s)"

definition startswith :: "string \<Rightarrow> string \<Rightarrow> bool" where
  \<comment> \<open>\<open>s.startswith(p)\<close>\<close>
  "startswith s p = prefix p s"

fun contains :: "string \<Rightarrow> string \<Rightarrow> bool" where
  \<comment> \<open>\<open>sub in s\<close>\<close>
  "contains [] sub = (sub = [])"
| "contains (c # cs) sub = (prefix sub (c # cs) \<or> contains cs sub)"

definition join :: "string \<Rightarrow> string list \<Rightarrow> string" where
  \<comment> \<open>\<open>sep.join(xs)\<close>\<close>
  "join sep xs = (case xs of [] \<Rightarrow> [] | y # ys \<Rightarrow> y @ concat (map (\<lambda>z. sep @ z) ys))"

definition is_digit :: "char \<Rightarrow> bool" where
  \<comment> \<open>\<open>\d\<close>: the decimal digits\<close>
  "is_digit c = (let n = (of_char c :: nat) in 48 \<le> n \<and> n \<le> 57)"

definition is_word_char :: "char \<Rightarrow> bool" where
  \<comment> \<open>\<open>\w\<close>: underscore and whatever \<open>str.isalnum\<close> accepts\<close>
  "is_word_char c =
     (let n = (of_char c :: nat)
      in (48 \<le> n \<and> n \<le> 57) \<or> (65 \<le> n \<and> n \<le> 90) \<or> n = 95 \<or> (97 \<le> n \<and> n \<le> 122) \<or>
         n = 170 \<or> n = 178 \<or> n = 179 \<or> n = 181 \<or> n = 185 \<or> n = 186 \<or>
         (188 \<le> n \<and> n \<le> 190) \<or> (192 \<le> n \<and> n \<le> 214) \<or> (216 \<le> n \<and> n \<le> 246) \<or>
         (248 \<le> n \<and> n \<le> 255))"

definition at_word_end :: "string \<Rightarrow> bool" where
  \<comment> \<open>\<open>\b\<close> after a word character: the text that follows is empty or starts with a
     non-word character\<close>
  "at_word_end rest = (case rest of [] \<Rightarrow> True | d # _ \<Rightarrow> \<not> is_word_char d)"

fun word_at :: "string \<Rightarrow> bool \<Rightarrow> string \<Rightarrow> bool" where
  \<comment> \<open>\<open>w\<close> (a word that starts and ends with word characters) occurs in the text between
     two \<open>\b\<close>; the flag says whether the character before the text is a word character\<close>
  "word_at w prev [] = False"
| "word_at w prev (c # cs) =
     ((\<not> prev \<and> prefix w (c # cs) \<and> at_word_end (drop (length w) (c # cs))) \<or>
      word_at w (is_word_char c) cs)"

definition search_word :: "string \<Rightarrow> string \<Rightarrow> bool" where
  \<comment> \<open>\<open>re.search(r'\bw\b', s)\<close> is not \<open>None\<close>\<close>
  "search_word w s = word_at w False s"


section \<open>IdentifierAssigner (convert\_mf\_portfolio.py)\<close>

definition ISIN_OTHER :: string where
  "ISIN_OTHER = ''IN9999999999''"

definition ISIN_OTHER_DISPLAY_NAME :: string where
  "ISIN_OTHER_DISPLAY_NAME = ''Cash & Other Assets''"

definition is_valid_isin :: "string \<Rightarrow> bool" where
  "is_valid_isin isin =
     (if isin = [] then False
      else startswith isin ''IN'' \<and> 12 \<le> length isin)"

definition assign_isin :: "string \<Rightarrow> string \<Rightarrow> string" where
  "assign_isin isin_original instrument_name =
     (if is_valid_isin isin_original then isin_original else ISIN_OTHER)"

section \<open>Raw sheets (convert\_mf\_portfolio.py)\<close>

text \<open>
  A sheet is the \<open>DataFrame\<close> that \<open>pd.read_excel(..., header=None)\<close> returns: rows of
  untyped cells under a \<open>RangeIndex\<close>. The code observes a cell only through
  \<open>pd.notna\<close>, \<open>str\<close> and \<open>float\<close>, so a present cell is given by its \<open>str\<close> rendering and
  by what \<open>float\<close> makes of it (\<open>None\<close> when \<open>float\<close> raises \<open>ValueError\<close> or \<open>TypeError\<close>).
  \<open>Blank\<close> is the NaN of an empty cell; \<open>Missing\<close> stands for \<open>None\<close> and \<open>NaT\<close>.
  \<open>Big\<close> is an \<open>int\<close> beyond the range of a double, given by its \<open>str\<close> rendering: \<open>float\<close>
  raises \<open>OverflowError\<close> on it, which no handler of the code catches.
  Floats are exact rationals with the IEEE specials; rounding is not modelled and no
  definition below depends on it.
\<close>

datatype pyfloat = Fin rat | PosInf | NegInf | NaN

datatype cell =
    Blank
  | Missing
  | Val (cell_str: string) (cell_float: "pyfloat option")
  | Big (cell_str: string)

datatype error = ValueError | TypeError | IndexError | OverflowError

type_synonym row = "cell list"
type_synonym sheet = "row list"

definition notna :: "cell \<Rightarrow> bool" where
  \<comment> \<open>\<open>pd.notna(v)\<close>\<close>
  "notna c = (case c of Val _ _ \<Rightarrow> True | Big _ \<Rightarrow> True | _ \<Rightarrow> False)"

definition py_float :: "cell \<Rightarrow> error + pyfloat option" where
  \<comment> \<open>\<open>float(v)\<close> under \<open>except (ValueError, TypeError)\<close>, as every call of it stands:
     \<open>Inr None\<close> when it raises one of these two; \<open>OverflowError\<close> passes the handler\<close>
  "py_float c =
     (case c of
        Blank \<Rightarrow> Inr (Some NaN)
      | Missing \<Rightarrow> Inr None
      | Val _ f \<Rightarrow> Inr f
      | Big _ \<Rightarrow> Inl OverflowError)"

definition gt_float :: "pyfloat \<Rightarrow> rat \<Rightarrow> bool" where
  \<comment> \<open>\<open>v > k\<close>\<close>
  "gt_float v k = (case v of Fin r \<Rightarrow> k < r | PosInf \<Rightarrow> True | _ \<Rightarrow> False)"

definition is_zero :: "pyfloat \<Rightarrow> bool" where
  \<comment> \<open>\<open>v == 0\<close>\<close>
  "is_zero v = (v = Fin 0)"

definition iloc :: "row \<Rightarrow> nat option \<Rightarrow> error + cell" where
  \<comment> \<open>\<open>row.iloc[col]\<close> for a column index that is \<open>None\<close> or not negative\<close>
  "iloc r col =
     (case col of
        None \<Rightarrow> Inl TypeError
      | Some k \<Rightarrow> if k < length r then Inr (r ! k) else Inl IndexError)"

definition row_text :: "row \<Rightarrow> string" where
  \<comment> \<open>\<open>' '.join([str(v) for v in row if pd.notna(v)])\<close>\<close>
  "row_text r = join '' '' (map cell_str (filter notna r))"

definition cell_value :: "row \<Rightarrow> nat option \<Rightarrow> error + pyfloat" where
  \<comment> \<open>\<open>float(row.iloc[col]) if pd.notna(row.iloc[col]) else 0\<close> under
     \<open>except (ValueError, TypeError)\<close>, which gives 0\<close>
  "cell_value r col =
     (case iloc r col of
        Inl TypeError \<Rightarrow> Inr (Fin 0)
      | Inl e \<Rightarrow> Inl e
      | Inr c \<Rightarrow>
          if notna c then
            (case py_float c of
               Inl e \<Rightarrow> Inl e
             | Inr None \<Rightarrow> Inr (Fin 0)
             | Inr (Some v) \<Rightarrow> Inr v)
          else Inr (Fin 0))"

section \<open>GrandTotalLocator\<close>

fun first_large :: "row \<Rightarrow> error + pyfloat option" where
  \<comment> \<open>the loop \<open>for cell in row\<close> of patterns 2 and 3\<close>
  "first_large [] = Inr None"
| "first_large (c # cs) =
     (if notna c then
        (case py_float c of
           Inl e \<Rightarrow> Inl e
         | Inr (Some v) \<Rightarrow> if gt_float v 10000 then Inr (Some v) else first_large cs
         | Inr None \<Rightarrow> first_large cs)
      else first_large cs)"

definition first_cell_text :: "cell \<Rightarrow> string" where
  \<comment> \<open>\<open>str(c).strip().lower() if pd.notna(c) else ''\<close>\<close>
  "first_cell_text c = (if notna c then lower (strip (cell_str c)) else [])"

definition grand_total_in_row :: "row \<Rightarrow> nat option \<Rightarrow> error + pyfloat option" where
  \<comment> \<open>one iteration of the loop of \<open>find_grand_total\<close>: the value it returns with, if any\<close>
  "grand_total_in_row r market_value_col =
     (let row_str = lower (row_text r);
          p1 = (if contains row_str ''grand total'' then
                  (case iloc r market_value_col of
                     Inl TypeError \<Rightarrow> Inr None
                   | Inl e \<Rightarrow> Inl e
                   | Inr c \<Rightarrow> py_float c)
                else Inr None)
      in case p1 of
           Inl e \<Rightarrow> Inl e
         | Inr (Some v) \<Rightarrow> Inr (Some v)
         | Inr None \<Rightarrow>
             (case (if contains row_str ''total net assets'' then first_large r else Inr None) of
                Inl e \<Rightarrow> Inl e
              | Inr (Some v) \<Rightarrow> Inr (Some v)
              | Inr None \<Rightarrow>
                  (case iloc r (Some 0) of
                     Inl e \<Rightarrow> Inl e
                   | Inr c0 \<Rightarrow>
                       if first_cell_text c0 = ''total'' then first_large r
                       else Inr None)))"

fun find_grand_total_from :: "nat \<Rightarrow> sheet \<Rightarrow> nat option \<Rightarrow> error + (nat \<times> pyfloat) option" where
  "find_grand_total_from idx [] market_value_col = Inr None"
| "find_grand_total_from idx (r # rs) market_value_col =
     (case grand_total_in_row r market_value_col of
        Inl e \<Rightarrow> Inl e
      | Inr (Some v) \<Rightarrow> Inr (Some (idx + 1, v))
      | Inr None \<Rightarrow> find_grand_total_from (idx + 1) rs market_value_col)"

definition find_grand_total :: "sheet \<Rightarrow> nat option \<Rightarrow> error + (nat \<times> pyfloat) option" where
  \<comment> \<open>\<open>Inr None\<close> is the pair \<open>(None, None)\<close>\<close>
  "find_grand_total df market_value_col = find_grand_total_from 0 df market_value_col"

section \<open>SchemaDetector\<close>

record Schema =
  data_start_row :: "nat option"
  isin_col :: "nat option"
  name_col :: "nat option"
  market_value_col :: "nat option"
  quantity_col :: "nat option"
  grand_total_row :: "nat option"
  grand_total :: "pyfloat option"

definition cell_lower :: "cell \<Rightarrow> string" where
  \<comment> \<open>\<open>str(v).lower() if pd.notna(v) else ''\<close>\<close>
  "cell_lower c = (if notna c then lower (cell_str c) else [])"

definition has_isin_cell :: "row \<Rightarrow> bool" where
  "has_isin_cell r = list_ex (\<lambda>c. contains (cell_lower c) ''isin'') r"

fun find_header_row :: "nat \<Rightarrow> sheet \<Rightarrow> nat option" where
  "find_header_row idx [] = None"
| "find_header_row idx (r # rs) =
     (if has_isin_cell r then Some idx else find_header_row (idx + 1) rs)"

definition any_term :: "string list \<Rightarrow> string \<Rightarrow> bool" where
  \<comment> \<open>\<open>any(term in val_lower for term in terms)\<close>\<close>
  "any_term terms val_lower = list_ex (\<lambda>t. contains val_lower t) terms"

definition classify_step ::
  "nat \<Rightarrow> cell \<Rightarrow> nat option \<times> nat option \<times> nat option \<times> nat option \<Rightarrow>
   nat option \<times> nat option \<times> nat option \<times> nat option" where
  \<comment> \<open>the body of the loop over \<open>enumerate(header)\<close>; the state is
     \<open>(isin_col, name_col, market_value_col, quantity_col)\<close>\<close>
  "classify_step col_idx c st =
     (case st of (ic, nc, mc, qc) \<Rightarrow>
        let val_lower = cell_lower c
        in if contains val_lower ''isin'' \<and> ic = None then (Some col_idx, nc, mc, qc)
           else if any_term [''instrument'', ''name of'', ''security'', ''company''] val_lower
                   \<and> nc = None then (ic, Some col_idx, mc, qc)
           else if any_term [''market'', ''fair value'', ''nav'', ''value''] val_lower
                   \<and> \<not> contains val_lower ''net'' \<and> mc = None then (ic, nc, Some col_idx, qc)
           else if any_term [''quantity'', ''qty'', ''units'', ''nos''] val_lower
                   \<and> qc = None then (ic, nc, mc, Some col_idx)
           else (ic, nc, mc, qc))"

fun classify_columns ::
  "nat \<Rightarrow> row \<Rightarrow> nat option \<times> nat option \<times> nat option \<times> nat option \<Rightarrow>
   nat option \<times> nat option \<times> nat option \<times> nat option" where
  "classify_columns col_idx [] st = st"
| "classify_columns col_idx (c # cs) st =
     classify_columns (col_idx + 1) cs (classify_step col_idx c st)"

fun find_data_start :: "nat \<Rightarrow> sheet \<Rightarrow> nat option \<Rightarrow> error + nat option" where
  \<comment> \<open>the loop \<open>for idx in range(header_row + 1, len(df))\<close> over the rows from \<open>idx\<close> on\<close>
  "find_data_start idx [] ic = Inr None"
| "find_data_start idx (r # rs) ic =
     (if ic \<noteq> None then
        (case iloc r ic of
           Inl e \<Rightarrow> Inl e
         | Inr c \<Rightarrow>
             let isin_val = (if notna c then cell_str c else [])
             in if startswith (strip isin_val) ''IN'' then Inr (Some (idx + 1))
                else find_data_start (idx + 1) rs ic)
      else find_data_start (idx + 1) rs ic)"

definition detect_schema :: "sheet \<Rightarrow> error + Schema" where
  "detect_schema df =
     (case find_header_row 0 df of
        None \<Rightarrow> Inl ValueError
      | Some header_row \<Rightarrow>
          (case classify_columns 0 (df ! header_row) (None, None, None, None) of
             (ic, nc, mc, qc) \<Rightarrow>
               (case find_data_start (header_row + 1) (drop (header_row + 1) df) ic of
                  Inl e \<Rightarrow> Inl e
                | Inr start \<Rightarrow>
                    (case find_grand_total df mc of
                       Inl e \<Rightarrow> Inl e
                     | Inr gt \<Rightarrow>
                         Inr \<lparr>data_start_row = start, isin_col = ic, name_col = nc,
                              market_value_col = mc, quantity_col = qc,
                              grand_total_row = map_option fst gt,
                              grand_total = map_option snd gt\<rparr>))))"

section \<open>RowExtractor\<close>

definition skip_patterns :: "string list" where
  "skip_patterns = [''sub total'', ''subtotal'', ''grand total'', ''grandtotal'']"

definition section_headers :: "string list" where
  "section_headers =
     [''treasury bills'', ''treasury bill'',
      ''money market instruments'', ''money market'',
      ''debt instruments'', ''debt'',
      ''equity & equity related'', ''equity and equity'',
      ''listed / awaiting'', ''listed/awaiting'',
      ''privately placed'', ''unlisted'',
      ''certificate of deposit'', ''commercial paper'',
      ''government securities'', ''government security'',
      ''corporate debt'', ''corporate bond'',
      ''securitised debt'', ''pass through'',
      ''units of real estate'', ''reits'',
      ''units of an alternative'', ''aif'',
      ''zero coupon bonds'', ''deep discount bonds'',
      ''others'']"

definition skip_pattern_rule :: "string \<Rightarrow> string \<Rightarrow> bool" where
  \<comment> \<open>the loop \<open>for pattern in skip_patterns\<close>\<close>
  "skip_pattern_rule name_lower isin_lower =
     list_ex (\<lambda>pattern. contains name_lower pattern \<or> contains isin_lower pattern) skip_patterns"

definition section_header_rule :: "string \<Rightarrow> string \<Rightarrow> bool" where
  \<comment> \<open>the block under the comment \<open>Check for section headers (only when no valid ISIN)\<close>\<close>
  "section_header_rule name_lower isin_lower =
     ((\<not> startswith isin_lower ''in'' \<or> length isin_lower \<noteq> 12) \<and>
      list_ex (\<lambda>header. name_lower = header \<or> startswith name_lower header) section_headers)"

definition is_aggregation_row :: "string \<Rightarrow> string \<Rightarrow> string \<Rightarrow> bool" where
  "is_aggregation_row name isin full_row_text =
     (let name_lower = strip (lower name);
          isin_lower = strip (lower isin);
          row_lower = (if full_row_text \<noteq> [] then lower full_row_text else [])
      in if skip_pattern_rule name_lower isin_lower then True
         else if section_header_rule name_lower isin_lower then True
         else if name_lower = ''total'' \<or> isin_lower = ''total'' then True
         else if row_lower \<noteq> [] \<and> search_word ''total'' row_lower \<and> \<not> contains row_lower ''net''
           then True
         else False)"

record master_entry =
  me_name_nsdl :: string
  me_nse_symbol :: string

record mapping_entry =
  me_isin_mapped :: string
  me_name_mapped :: string
  me_category :: string
  me_reason :: string

record ProcessedRow =
  pr_isin_original :: string
  pr_isin_assigned :: string
  pr_instrument_name :: string
  pr_market_value :: pyfloat
  pr_quantity :: pyfloat
  pr_nse_symbol :: string
  pr_name_nsdl :: string
  pr_name_final :: string
  pr_isin_mapped :: string
  pr_name_mapped :: string
  pr_mapping_category :: string
  pr_mapping_reason :: string

definition cell_text :: "cell \<Rightarrow> string" where
  \<comment> \<open>\<open>str(c).strip() if pd.notna(c) else ''\<close>\<close>
  "cell_text c = (if notna c then strip (cell_str c) else [])"

fun reverse_repo_lookahead :: "sheet \<Rightarrow> Schema \<Rightarrow> error + bool" where
  \<comment> \<open>the loop \<open>for j in range(idx + 1, len(df))\<close> over the rows after \<open>idx\<close>: the final
     \<open>is_subtotal\<close>\<close>
  "reverse_repo_lookahead [] schema = Inr False"
| "reverse_repo_lookahead (next_row # later) schema =
     (case iloc next_row (name_col schema) of
        Inl e \<Rightarrow> Inl e
      | Inr nc \<Rightarrow>
          (case cell_value next_row (market_value_col schema) of
             Inl e \<Rightarrow> Inl e
           | Inr next_mv \<Rightarrow>
               if is_zero next_mv then reverse_repo_lookahead later schema
               else Inr (startswith (lower (cell_text nc)) ''reverse repo'' \<and>
                         strip (lower (cell_text nc)) \<noteq> ''reverse repo'')))"

definition resolve_name_final :: "(string \<rightharpoonup> master_entry) \<Rightarrow> string \<Rightarrow> string \<Rightarrow> string" where
  \<comment> \<open>\<open>name_final\<close>: the registry name, else the cash label, else the sheet's name\<close>
  "resolve_name_final isin_mapping isin_assigned name =
     (let name_nsdl = (case isin_mapping isin_assigned of None \<Rightarrow> [] | Some m \<Rightarrow> me_name_nsdl m)
      in if name_nsdl \<noteq> [] then name_nsdl
         else if isin_assigned = ISIN_OTHER then ISIN_OTHER_DISPLAY_NAME
         else name)"

definition apply_validation_mapping ::
  "(string \<rightharpoonup> mapping_entry) \<Rightarrow> string \<Rightarrow> string \<Rightarrow> string \<times> string \<times> string \<times> string" where
  \<comment> \<open>the block \<open>Apply validation mapping\<close> of \<open>process_sheet\<close>:
     \<open>(isin_mapped, name_mapped, mapping_category, mapping_reason)\<close>\<close>
  "apply_validation_mapping validation_mapping isin_assigned name_final =
     (let (isin_mapped, name_mapped, mapping_category, mapping_reason) =
            (case validation_mapping isin_assigned of
               None \<Rightarrow> (isin_assigned, name_final, [], [])
             | Some v \<Rightarrow> (me_isin_mapped v, me_name_mapped v, me_category v, me_reason v))
      in if isin_assigned = ISIN_OTHER \<and> mapping_category = [] then
           (isin_mapped, name_mapped, ''CASH_AGGREGATE'',
            ''Cash, TREPS, repos, futures, and other non-ISIN items consolidated under synthetic ISIN'')
         else (isin_mapped, name_mapped, mapping_category, mapping_reason))"

definition make_row ::
  "(string \<rightharpoonup> master_entry) \<Rightarrow> (string \<rightharpoonup> mapping_entry) \<Rightarrow> string \<Rightarrow> string \<Rightarrow>
   pyfloat \<Rightarrow> pyfloat \<Rightarrow> ProcessedRow" where
  \<comment> \<open>the tail of the loop body, from \<open>Assign ISIN\<close> to the \<open>ProcessedRow\<close>\<close>
  "make_row isin_mapping validation_mapping isin_original name market_value quantity =
     (let isin_assigned = assign_isin isin_original name;
          name_final = resolve_name_final isin_mapping isin_assigned name;
          (isin_mapped, name_mapped, mapping_category, mapping_reason) =
            apply_validation_mapping validation_mapping isin_assigned name_final
      in \<lparr>pr_isin_original = isin_original, pr_isin_assigned = isin_assigned,
          pr_instrument_name = name, pr_market_value = market_value, pr_quantity = quantity,
          pr_nse_symbol = (case isin_mapping isin_assigned of None \<Rightarrow> [] | Some m \<Rightarrow> me_nse_symbol m),
          pr_name_nsdl = (case isin_mapping isin_assigned of None \<Rightarrow> [] | Some m \<Rightarrow> me_name_nsdl m),
          pr_name_final = name_final, pr_isin_mapped = isin_mapped, pr_name_mapped = name_mapped,
          pr_mapping_category = mapping_category, pr_mapping_reason = mapping_reason\<rparr>)"

datatype outcome = Stop | Skip | Emit ProcessedRow

definition stop_condition :: "row \<Rightarrow> error + bool" where
  \<comment> \<open>the three \<open>break\<close> tests of \<open>process_sheet\<close>\<close>
  "stop_condition row_data =
     (let full_row_lower = lower (row_text row_data)
      in if contains full_row_lower ''grand total'' then Inr True
         else if contains full_row_lower ''total net assets'' then Inr True
         else (case iloc row_data (Some 0) of
                 Inl e \<Rightarrow> Inl e
               | Inr c0 \<Rightarrow> Inr (first_cell_text c0 = ''total'')))"

definition keep_row ::
  "Schema \<Rightarrow> (string \<rightharpoonup> master_entry) \<Rightarrow> (string \<rightharpoonup> mapping_entry) \<Rightarrow>
   string \<Rightarrow> string \<Rightarrow> row \<Rightarrow> sheet \<Rightarrow> error + outcome" where
  \<comment> \<open>the loop body after the \<open>break\<close> tests\<close>
  "keep_row schema isin_mapping validation_mapping isin_original name row_data later =
     (if is_aggregation_row name isin_original (row_text row_data) then Inr Skip
      else
        (case (if strip (lower name) = ''reverse repo'' \<and> \<not> is_valid_isin isin_original
               then reverse_repo_lookahead later schema else Inr False) of
           Inl e \<Rightarrow> Inl e
         | Inr is_subtotal \<Rightarrow>
             if is_subtotal then Inr Skip
             else
               (case cell_value row_data (market_value_col schema) of
                  Inl e \<Rightarrow> Inl e
                | Inr market_value \<Rightarrow>
                    if is_zero market_value then Inr Skip
                    else
                      (case cell_value row_data (quantity_col schema) of
                         Inl e \<Rightarrow> Inl e
                       | Inr quantity \<Rightarrow>
                           Inr (Emit (make_row isin_mapping validation_mapping
                                        isin_original name market_value quantity))))))"

definition visit ::
  "Schema \<Rightarrow> (string \<rightharpoonup> master_entry) \<Rightarrow> (string \<rightharpoonup> mapping_entry) \<Rightarrow>
   row \<Rightarrow> sheet \<Rightarrow> error + outcome" where
  \<comment> \<open>one iteration of the loop of \<open>process_sheet\<close>, on \<open>row_data = df.iloc[idx]\<close> and the rows
     after it\<close>
  "visit schema isin_mapping validation_mapping row_data later =
     (case iloc row_data (isin_col schema) of
        Inl e \<Rightarrow> Inl e
      | Inr ic \<Rightarrow>
          (case iloc row_data (name_col schema) of
             Inl e \<Rightarrow> Inl e
           | Inr nc \<Rightarrow>
               (case stop_condition row_data of
                  Inl e \<Rightarrow> Inl e
                | Inr True \<Rightarrow> Inr Stop
                | Inr False \<Rightarrow>
                    keep_row schema isin_mapping validation_mapping
                      (cell_text ic) (cell_text nc) row_data later)))"

function walk ::
  "sheet \<Rightarrow> Schema \<Rightarrow> (string \<rightharpoonup> master_entry) \<Rightarrow> (string \<rightharpoonup> mapping_entry) \<Rightarrow>
   nat \<Rightarrow> error + (nat \<times> ProcessedRow) list" where
  \<comment> \<open>the loop \<open>for idx in range(start_idx, len(df))\<close> from \<open>idx\<close> on: the rows appended to
     \<open>rows\<close>, each with the index of the sheet row it comes from\<close>
  "walk df schema isin_mapping validation_mapping idx =
     (if idx < length df then
        (case visit schema isin_mapping validation_mapping (df ! idx) (drop (idx + 1) df) of
           Inl e \<Rightarrow> Inl e
         | Inr Stop \<Rightarrow> Inr []
         | Inr Skip \<Rightarrow> walk df schema isin_mapping validation_mapping (idx + 1)
         | Inr (Emit r) \<Rightarrow>
             (case walk df schema isin_mapping validation_mapping (idx + 1) of
                Inl e \<Rightarrow> Inl e
              | Inr rs \<Rightarrow> Inr ((idx, r) # rs)))
      else Inr [])"
  by pat_completeness auto
termination
  by (relation "measure (\<lambda>(df, schema, isin_mapping, validation_mapping, idx). length df - idx)") auto

declare walk.simps [simp del]

definition unmapped_of :: "(string \<rightharpoonup> master_entry) \<Rightarrow> ProcessedRow list \<Rightarrow> (string \<times> string) list" where
  \<comment> \<open>the list \<open>unmapped\<close>: valid identifiers that the registry does not know\<close>
  "unmapped_of isin_mapping rows =
     map (\<lambda>r. (pr_isin_assigned r, pr_instrument_name r))
       (filter (\<lambda>r. isin_mapping (pr_isin_assigned r) = None \<and> is_valid_isin (pr_isin_assigned r)) rows)"

definition process_rows ::
  "sheet \<Rightarrow> Schema \<Rightarrow> (string \<rightharpoonup> master_entry) \<Rightarrow> (string \<rightharpoonup> mapping_entry) \<Rightarrow>
   error + ProcessedRow list" where
  \<comment> \<open>the list \<open>rows\<close> of \<open>process_sheet\<close>. \<open>data_start_row\<close> is a 1-based row number;
     \<open>None - 1\<close> raises \<open>TypeError\<close>, and 0 makes the loop start at index -1, the last row\<close>
  "process_rows df schema isin_mapping validation_mapping =
     (case data_start_row schema of
        None \<Rightarrow> Inl TypeError
      | Some 0 \<Rightarrow>
          if df = [] then Inl IndexError
          else
            (case visit schema isin_mapping validation_mapping (last df) df of
               Inl e \<Rightarrow> Inl e
             | Inr Stop \<Rightarrow> Inr []
             | Inr Skip \<Rightarrow>
                 map_sum id (map snd) (walk df schema isin_mapping validation_mapping 0)
             | Inr (Emit r) \<Rightarrow>
                 map_sum id (\<lambda>rs. r # map snd rs) (walk df schema isin_mapping validation_mapping 0))
      | Some (Suc k) \<Rightarrow>
          map_sum id (map snd) (walk df schema isin_mapping validation_mapping k))"

definition process_sheet ::
  "sheet \<Rightarrow> Schema \<Rightarrow> (string \<rightharpoonup> master_entry) \<Rightarrow> (string \<rightharpoonup> mapping_entry) \<Rightarrow>
   error + (ProcessedRow list \<times> (string \<times> string) list)" where
  \<comment> \<open>\<open>(rows, unmapped)\<close>; the float sum \<open>calculated_total\<close> is left out\<close>
  "process_sheet df schema isin_mapping validation_mapping =
     map_sum id (\<lambda>rows. (rows, unmapped_of isin_mapping rows))
       (process_rows df schema isin_mapping validation_mapping)"

section \<open>Notions used to state the properties\<close>

definition col_in_row :: "nat option \<Rightarrow> row \<Rightarrow> bool" where
  \<comment> \<open>a column index that is absent or within the row\<close>
  "col_in_row col r = (case col of None \<Rightarrow> True | Some k \<Rightarrow> k < length r)"

definition in_float_range :: "cell \<Rightarrow> bool" where
  \<comment> \<open>a cell that is not an \<open>int\<close> beyond the range of a double\<close>
  "in_float_range c = (case c of Big _ \<Rightarrow> False | _ \<Rightarrow> True)"

definition col_in_float_range :: "nat option \<Rightarrow> row \<Rightarrow> bool" where
  \<comment> \<open>the cell of a row at a column index, if the index is set and within the row, is in
     the range of a double\<close>
  "col_in_float_range col r =
     (case col of None \<Rightarrow> True | Some k \<Rightarrow> k < length r \<longrightarrow> in_float_range (r ! k))"

definition float_of :: "cell \<Rightarrow> pyfloat option" where
  \<comment> \<open>the number that a cell converts to, if it converts\<close>
  "float_of c = (case py_float c of Inr v \<Rightarrow> v | Inl e \<Rightarrow> None)"

definition numeric_values :: "row \<Rightarrow> pyfloat list" where
  \<comment> \<open>the numeric cells of a row, in column order\<close>
  "numeric_values r = List.map_filter (\<lambda>c. if notna c then float_of c else None) r"

definition spec_first_large :: "row \<Rightarrow> pyfloat option" where
  \<comment> \<open>in the spec's words: the first numeric value exceeding the materiality floor\<close>
  "spec_first_large r = find (\<lambda>v. gt_float v 10000) (numeric_values r)"

definition spec_row_total :: "row \<Rightarrow> nat option \<Rightarrow> pyfloat option" where
  \<comment> \<open>in the spec's words: what a row declares as total. Pattern 1 reads the value column
     of a "grand total" row; patterns 2 and 3 take the first large numeric value of a
     "total net assets" row or of a row whose first cell is exactly "total"\<close>
  "spec_row_total r col =
     (let t = lower (row_text r)
      in case (if contains t ''grand total''
               then (case col of None \<Rightarrow> None | Some k \<Rightarrow> float_of (r ! k)) else None) of
           Some v \<Rightarrow> Some v
         | None \<Rightarrow>
             if contains t ''total net assets'' \<or> first_cell_text (r ! 0) = ''total''
             then spec_first_large r else None)"

definition cols_ok :: "Schema \<Rightarrow> row \<Rightarrow> bool" where
  \<comment> \<open>the identifier and name columns are set, every column index of the schema that is
     set lies within the row, and the cells of the two value columns are in the range of a
     double\<close>
  "cols_ok schema r =
     (isin_col schema \<noteq> None \<and> name_col schema \<noteq> None \<and>
      col_in_row (isin_col schema) r \<and> col_in_row (name_col schema) r \<and>
      col_in_row (market_value_col schema) r \<and> col_in_row (quantity_col schema) r \<and>
      col_in_float_range (market_value_col schema) r \<and>
      col_in_float_range (quantity_col schema) r)"




section \<open>More string operations (isin\_validation\_mapping.py)\<close>

definition is_lower_char :: "char \<Rightarrow> bool" where
  "is_lower_char c =
     (let n = (of_char c :: nat)
      in (97 \<le> n \<and> n \<le> 122) \<or> (224 \<le> n \<and> n \<le> 254 \<and> n \<noteq> 247))"

definition upper_char :: "char \<Rightarrow> string" where
  \<comment> \<open>the sharp s becomes "SS"; the micro sign and y with diaeresis, whose capitals lie
     beyond code point 255, are kept as they are\<close>
  "upper_char c =
     (if is_lower_char c then [char_of (of_char c - (32::nat))]
      else if c = CHR 0xDF then ''SS''
      else [c])"

definition upper :: "string \<Rightarrow> string" where
  \<comment> \<open>\<open>s.upper()\<close>\<close>
  "upper s = concat (map upper_char s)"

definition newline :: char where
  "newline = CHR 0x0A"



fun collapse_ws :: "bool \<Rightarrow> string \<Rightarrow> string" where
  \<comment> \<open>\<open>re.sub(r'\s+', ' ', s)\<close>; the flag says whether the previous character was white
     space\<close>
  "collapse_ws prev [] = []"
| "collapse_ws prev (c # cs) =
     (if is_space c then (if prev then collapse_ws True cs else CHR '' '' # collapse_ws True cs)
      else c # collapse_ws False cs)"

fun split_ws :: "string \<Rightarrow> string \<Rightarrow> string list" where
  \<comment> \<open>\<open>s.split()\<close>, with the word read so far\<close>
  "split_ws cur [] = (if cur = [] then [] else [cur])"
| "split_ws cur (c # cs) =
     (if is_space c then (if cur = [] then split_ws [] cs else cur # split_ws [] cs)
      else split_ws (cur @ [c]) cs)"


function decimal :: "nat \<Rightarrow> string" where
  "decimal n = (if n < 10 then [char_of (48 + n)] else decimal (n div 10) @ [char_of (48 + n mod 10)])"
  by pat_completeness auto
termination
  by (relation "measure id") auto

declare decimal.simps [simp del]

definition fmt_02d :: "nat \<Rightarrow> string" where
  \<comment> \<open>\<open>f"{seq:02d}"\<close>\<close>
  "fmt_02d n = replicate (2 - length (decimal n)) CHR ''0'' @ decimal n"

section \<open>ReconciliationEngine: names and identifiers\<close>

definition NAME_CUT_LENGTH :: nat where
  "NAME_CUT_LENGTH = 7"

definition SYNTHETIC_PREFIX :: string where
  "SYNTHETIC_PREFIX = ''SYN''"

definition is_az09 :: "char \<Rightarrow> bool" where
  \<comment> \<open>the class \<open>[a-z0-9]\<close>\<close>
  "is_az09 c = (let n = (of_char c :: nat) in (97 \<le> n \<and> n \<le> 122) \<or> (48 \<le> n \<and> n \<le> 57))"

definition standardize_name :: "string \<Rightarrow> string" where
  "standardize_name nm = (if nm = [] then [] else filter is_az09 (strip (lower nm)))"

definition bank_here :: "string \<Rightarrow> bool" where
  \<comment> \<open>\<open>\s+BANK\b\<close> matches at the start of the text\<close>
  "bank_here s =
     (case s of
        [] \<Rightarrow> False
      | c # _ \<Rightarrow> is_space c \<and> startswith (dropWhile is_space s) ''BANK'' \<and>
                 at_word_end (drop 4 (dropWhile is_space s)))"

fun bank_match_from :: "string \<Rightarrow> string \<Rightarrow> string option" where
  \<comment> \<open>\<open>re.match(r'^(.+?\s+BANK)\b', name)\<close> with \<open>.+?\<close> having taken \<open>pre\<close>: group 1\<close>
  "bank_match_from pre [] = None"
| "bank_match_from pre (c # cs) =
     (if bank_here (c # cs) then Some (pre @ takeWhile is_space (c # cs) @ ''BANK'')
      else if c = newline then None
      else bank_match_from (pre @ [c]) cs)"

definition bank_match :: "string \<Rightarrow> string option" where
  "bank_match s =
     (case s of [] \<Rightarrow> None | c # cs \<Rightarrow> if c = newline then None else bank_match_from [c] cs)"

definition line_rest :: "string \<Rightarrow> string" where
  \<comment> \<open>what \<open>.*\<close> leaves: the text from the first line break on\<close>
  "line_rest s = dropWhile (\<lambda>c. c \<noteq> newline) s"

definition suffix_match :: "(string \<Rightarrow> string option) \<Rightarrow> string \<Rightarrow> string option" where
  \<comment> \<open>a pattern \<open>\s+TOKEN.*$\<close> matches at the start of the text: what it leaves (nothing, or
     the line break that ends the text). \<open>tok\<close> matches the token and gives the text after
     it\<close>
  "suffix_match tok s =
     (case s of
        [] \<Rightarrow> None
      | c # _ \<Rightarrow>
          if is_space c then
            (case tok (dropWhile is_space s) of
               None \<Rightarrow> None
             | Some after \<Rightarrow>
                 if line_rest after = [] \<or> line_rest after = [newline]
                 then Some (line_rest after) else None)
          else None)"

fun sub_suffix :: "(string \<Rightarrow> string option) \<Rightarrow> string \<Rightarrow> string" where
  \<comment> \<open>\<open>re.sub(r'\s+TOKEN.*$', '', s)\<close>\<close>
  "sub_suffix tok [] = []"
| "sub_suffix tok (c # cs) =
     (case suffix_match tok (c # cs) of
        Some left \<Rightarrow> left
      | None \<Rightarrow> c # sub_suffix tok cs)"

definition tok_word :: "string \<Rightarrow> string \<Rightarrow> string option" where
  \<comment> \<open>\<open>LIMITED\<close>, and \<open>LTD\.?\<close> (the optional dot falls under the \<open>.*\<close> that follows)\<close>
  "tok_word w s = (if startswith s w then Some (drop (length w) s) else None)"

definition tok_word_space :: "string \<Rightarrow> string \<Rightarrow> string option" where
  \<comment> \<open>\<open>EQ\s\<close>, \<open>CD\s\<close>, \<open>CP\s\<close>, \<open>NCD\s\<close>\<close>
  "tok_word_space w s =
     (if startswith s w then
        (case drop (length w) s of
           [] \<Rightarrow> None
         | d # after \<Rightarrow> if is_space d then Some after else None)
      else None)"

definition tok_bank :: "string \<Rightarrow> string option" where
  \<comment> \<open>\<open>BANK\s+\<close>\<close>
  "tok_bank s =
     (if startswith s ''BANK'' then
        (case drop 4 s of
           [] \<Rightarrow> None
         | d # after \<Rightarrow> if is_space d then Some (dropWhile is_space after) else None)
      else None)"

definition tok_days :: "string \<Rightarrow> string option" where
  \<comment> \<open>\<open>\d+D\s\<close>\<close>
  "tok_days s =
     (if takeWhile is_digit s \<noteq> [] then
        (case dropWhile is_digit s of
           c # d # after \<Rightarrow> if c = CHR ''D'' \<and> is_space d then Some after else None
         | _ \<Rightarrow> None)
      else None)"

definition suffixes :: "(string \<Rightarrow> string option) list" where
  "suffixes =
     [tok_word ''LIMITED'', tok_word ''LTD'', tok_bank, tok_word_space ''EQ'',
      tok_word_space ''CD'', tok_word_space ''CP'', tok_word_space ''NCD'', tok_days]"

definition extract_company_name :: "string \<Rightarrow> string" where
  "extract_company_name full_name =
     (if full_name = [] then []
      else
        (case bank_match (strip (upper full_name)) of
           Some g \<Rightarrow> g
         | None \<Rightarrow>
             let nm = foldl (\<lambda>s tok. sub_suffix tok s) (strip (upper full_name)) suffixes;
                 nm = strip (collapse_ws False nm)
             in if length nm < 5 then join '' '' (take 3 (split_ws [] (upper full_name)))
                else nm))"

record parsed =
  isin :: string
  country :: string
  issuer_type :: string
  issuer_code :: string
  security_type :: string
  serial :: string
  check_digit :: string
  base_9 :: string

record item = parsed +
  name :: string
  name_std :: string
  name_cut :: string
  mv :: pyfloat
  sec_category :: string

definition parse_isin :: "string \<Rightarrow> parsed option" where
  "parse_isin s =
     (if s = [] \<or> length s < 12 then None
      else Some \<lparr>isin = s, country = take 2 s, issuer_type = [s ! 2],
                 issuer_code = take 4 (drop 3 s), security_type = take 2 (drop 7 s),
                 serial = take 2 (drop 9 s),
                 check_digit = (if 11 < length s then [s ! 11] else []),
                 base_9 = take 9 s\<rparr>)"

definition get_security_category :: "string \<Rightarrow> string" where
  "get_security_category sec_type =
     (if sec_type = ''01'' then ''EQUITY''
      else if sec_type \<in> set [''16'', ''D6''] then ''CD''
      else if sec_type = ''14'' then ''CP''
      else if sec_type \<in> set [''07'', ''08''] then ''NCD''
      else ''OTHER'')"

definition generate_synthetic_isin :: "string \<Rightarrow> string \<Rightarrow> nat \<Rightarrow> string" where
  "generate_synthetic_isin issuer cat seq = SYNTHETIC_PREFIX @ issuer @ cat @ fmt_02d seq"

definition generate_aggregated_name :: "item list \<Rightarrow> string \<Rightarrow> string" where
  "generate_aggregated_name items cat =
     (case items of
        [] \<Rightarrow> []
      | first # _ \<Rightarrow>
          let first_name = name first;
              base_name = extract_company_name first_name
          in if cat = ''CD'' then base_name @ '' CD''
             else if cat = ''CP'' then
               (if contains (upper first_name) ''365D'' then base_name @ '' 365D CP''
                else base_name @ '' CP'')
             else base_name @ '' '' @ cat)"

fun coupon_from :: "bool \<Rightarrow> string \<Rightarrow> bool" where
  \<comment> \<open>\<open>re.search(r'\d+\.\d+\s*(FV|%)', s)\<close>; the flag says whether the previous character
     was a digit\<close>
  "coupon_from prev [] = False"
| "coupon_from prev (c # cs) =
     ((prev \<and> c = CHR ''.'' \<and> takeWhile is_digit cs \<noteq> [] \<and>
       (startswith (dropWhile is_space (dropWhile is_digit cs)) ''FV'' \<or>
        startswith (dropWhile is_space (dropWhile is_digit cs)) ''%'')) \<or>
      coupon_from (is_digit c) cs)"

definition is_AZ :: "char \<Rightarrow> bool" where
  \<comment> \<open>the class \<open>[A-Z]\<close>\<close>
  "is_AZ c = (let n = (of_char c :: nat) in 65 \<le> n \<and> n \<le> 90)"

definition maturity_here :: "string \<Rightarrow> bool" where
  \<comment> \<open>\<open>GOI\s+\d{2}[A-Z]{2}\d{2}\<close> matches at the start of the text\<close>
  "maturity_here s =
     (startswith s ''GOI'' \<and>
      (case drop 3 s of
         [] \<Rightarrow> False
       | w # _ \<Rightarrow>
           is_space w \<and>
           (case dropWhile is_space (drop 3 s) of
              d1 # d2 # a1 # a2 # d3 # d4 # _ \<Rightarrow>
                is_digit d1 \<and> is_digit d2 \<and> is_AZ a1 \<and> is_AZ a2 \<and> is_digit d3 \<and> is_digit d4
            | _ \<Rightarrow> False)))"

fun maturity_search :: "string \<Rightarrow> bool" where
  \<comment> \<open>\<open>re.search(r'GOI\s+\d{2}[A-Z]{2}\d{2}', s)\<close>\<close>
  "maturity_search [] = False"
| "maturity_search (c # cs) = (maturity_here (c # cs) \<or> maturity_search cs)"

definition detect_goi_security :: "string \<Rightarrow> string option" where
  "detect_goi_security nm =
     (if nm = [] then None
      else
        let name_upper = upper nm
        in if \<not> contains name_upper ''GOVERNMENT OF INDIA'' \<and> \<not> contains name_upper ''GOI''
           then None
           else if contains name_upper ''TBILL'' \<or> contains name_upper ''T-BILL'' \<or>
                   contains name_upper ''T BILL'' then Some ''TBILL''
           else if coupon_from False name_upper then Some ''GSEC''
           else if maturity_search name_upper then Some ''GSEC''
           else None)"

record fetched =
  f_isin_assigned :: string
  f_name_final :: "string option"
  f_instrument_name :: "string option"
  f_total_mv :: "pyfloat option"

definition display_name_of :: "string option \<Rightarrow> string option \<Rightarrow> string" where
  \<comment> \<open>\<open>name_final or instrument_name or ''\<close>\<close>
  "display_name_of name_final instrument_name =
     (case name_final of
        Some a \<Rightarrow> if a \<noteq> [] then a else (case instrument_name of Some b \<Rightarrow> b | None \<Rightarrow> [])
      | None \<Rightarrow> (case instrument_name of Some b \<Rightarrow> b | None \<Rightarrow> []))"

definition load_item :: "fetched \<Rightarrow> item option" where
  \<comment> \<open>the body of the loop over the fetched rows; the fields \<open>funds\<close> and \<open>months\<close>, which
     nothing reads, are left out\<close>
  "load_item f =
     (case parse_isin (f_isin_assigned f) of
        None \<Rightarrow> None
      | Some p \<Rightarrow>
          let display_name = display_name_of (f_name_final f) (f_instrument_name f)
          in Some (parsed.extend p
               \<lparr>name = display_name,
                name_std = standardize_name display_name,
                name_cut = take NAME_CUT_LENGTH (standardize_name display_name),
                mv = (case f_total_mv f of None \<Rightarrow> Fin 0 | Some v \<Rightarrow> v),
                sec_category = get_security_category (security_type p)\<rparr>))"

definition load_holdings_data :: "fetched list \<Rightarrow> item list" where
  \<comment> \<open>from the rows that the query returns (one row for each \<open>isin_assigned\<close>, by its
     \<open>GROUP BY\<close>)\<close>
  "load_holdings_data fetched_rows = List.map_filter load_item fetched_rows"

section \<open>ReconciliationEngine: detection and categories\<close>

record vrow =
  row_name_cut :: string
  category :: string
  action :: string
  reason :: string
  isin_original :: string
  isin_mapped :: string
  name_original :: string
  name_mapped :: string
  row_mv :: pyfloat
  row_issuer_code :: string
  is_target :: bool

record Results =
  corporate_action :: "vrow list"
  cd_aggregate :: "vrow list"
  cp_aggregate :: "vrow list"
  tbill_aggregate :: "vrow list"
  gsec_aggregate :: "vrow list"
  no_action :: "vrow list"
  validation_rows :: "vrow list"

text \<open>The state of \<open>detect_and_categorize\<close>: \<open>results\<close> and the set \<open>processed_isins\<close>.\<close>

record state = Results +
  processed_isins :: "string set"

fun dd_append :: "'k \<Rightarrow> 'a \<Rightarrow> ('k \<times> 'a list) list \<Rightarrow> ('k \<times> 'a list) list" where
  \<comment> \<open>\<open>d[k].append(v)\<close> on a \<open>defaultdict(list)\<close>, kept in insertion order\<close>
  "dd_append k v [] = [(k, [v])]"
| "dd_append k v (e # es) =
     (if fst e = k then (fst e, snd e @ [v]) # es else e # dd_append k v es)"

definition group_by :: "('a \<Rightarrow> 'k) \<Rightarrow> 'a list \<Rightarrow> ('k \<times> 'a list) list" where
  \<comment> \<open>the loop \<open>for item in items: d[item[key]].append(item)\<close>, then \<open>d.items()\<close>\<close>
  "group_by f xs = foldl (\<lambda>d x. dd_append (f x) x d) [] xs"

definition tbill_row :: "item \<Rightarrow> vrow" where
  "tbill_row it =
     \<lparr>row_name_cut = ''governm'', category = ''TBILL_AGGREGATE'', action = ''AGGREGATE'',
      reason = ''GOI T-Bill, aggregate to synthetic'',
      isin_original = isin it, isin_mapped = ''SYNGOITBILL01'',
      name_original = take 60 (name it), name_mapped = ''GOI T-BILL'',
      row_mv = mv it, row_issuer_code = ''GOI'', is_target = False\<rparr>"

definition gsec_row :: "item \<Rightarrow> vrow" where
  "gsec_row it =
     \<lparr>row_name_cut = ''governm'', category = ''GSEC_AGGREGATE'', action = ''AGGREGATE'',
      reason = ''GOI G-Sec (dated bond), aggregate to synthetic'',
      isin_original = isin it, isin_mapped = ''SYNGOIGSEC01'',
      name_original = take 60 (name it), name_mapped = ''GOI G-SEC'',
      row_mv = mv it, row_issuer_code = ''GOI'', is_target = False\<rparr>"

definition goi_pass :: "item list \<Rightarrow> state" where
  \<comment> \<open>the pre-step: the state after the T-Bill and G-Sec rows are recorded\<close>
  "goi_pass data =
     (let goi_tbills = filter (\<lambda>it. detect_goi_security (name it) = Some ''TBILL'') data;
          goi_gsecs = filter (\<lambda>it. detect_goi_security (name it) = Some ''GSEC'') data
      in \<lparr>corporate_action = [], cd_aggregate = [], cp_aggregate = [],
          tbill_aggregate = map tbill_row goi_tbills,
          gsec_aggregate = map gsec_row goi_gsecs,
          no_action = [],
          validation_rows = map tbill_row goi_tbills @ map gsec_row goi_gsecs,
          processed_isins = set (map isin goi_tbills) \<union> set (map isin goi_gsecs)\<rparr>)"

definition ca_row :: "string \<Rightarrow> string \<Rightarrow> item \<Rightarrow> item \<Rightarrow> vrow" where
  "ca_row nc issuer newest it =
     \<lparr>row_name_cut = nc, category = ''CORPORATE_ACTION'',
      action = (if isin it = isin newest then ''TARGET'' else ''MAP''),
      reason = ''Same issuer '' @ issuer @ '', equity, serial '' @ serial it @
               (if isin it = isin newest then '' (TARGET - newest)''
                else '' -> '' @ serial newest),
      isin_original = isin it, isin_mapped = isin newest,
      name_original = take 60 (name it), name_mapped = take 60 (name newest),
      row_mv = mv it, row_issuer_code = issuer, is_target = (isin it = isin newest)\<rparr>"

definition process_base9 :: "string \<Rightarrow> string \<Rightarrow> state \<Rightarrow> string \<times> item list \<Rightarrow> state" where
  \<comment> \<open>the body of the loop \<open>for base9, base9_items in by_base9.items()\<close>\<close>
  "process_base9 nc issuer st g =
     (let unique_base9_isins = filter (\<lambda>i. isin i \<notin> processed_isins st) (snd g)
      in if 2 \<le> length unique_base9_isins \<and> security_type (hd unique_base9_isins) = ''01'' then
           let sorted_items = sort_key serial unique_base9_isins;
               newest = last sorted_items;
               rows = map (ca_row nc issuer newest) sorted_items
           in st\<lparr>corporate_action := corporate_action st @ rows,
                 validation_rows := validation_rows st @ rows,
                 processed_isins := processed_isins st \<union> set (map isin sorted_items)\<rparr>
         else st)"

definition agg_row :: "string \<Rightarrow> string \<Rightarrow> string \<Rightarrow> string \<Rightarrow> string \<Rightarrow> item \<Rightarrow> vrow" where
  \<comment> \<open>a CD or CP row; \<open>kind\<close> is \<open>CD\<close> or \<open>CP\<close>\<close>
  "agg_row kind nc issuer synthetic_isin aggregated_name it =
     \<lparr>row_name_cut = nc, category = kind @ ''_AGGREGATE'', action = ''AGGREGATE'',
      reason = kind @ '' for issuer '' @ issuer @ '', aggregate to synthetic'',
      isin_original = isin it, isin_mapped = synthetic_isin,
      name_original = take 60 (name it), name_mapped = aggregated_name,
      row_mv = mv it, row_issuer_code = issuer, is_target = False\<rparr>"

definition process_cds :: "string \<Rightarrow> string \<Rightarrow> item list \<Rightarrow> state \<Rightarrow> state" where
  "process_cds nc issuer issuer_items st =
     (let cds = filter (\<lambda>i. sec_category i = ''CD'' \<and> isin i \<notin> processed_isins st) issuer_items
      in if 2 \<le> length cds then
           let rows = map (agg_row ''CD'' nc issuer (generate_synthetic_isin issuer ''CD'' 1)
                             (generate_aggregated_name cds ''CD'')) cds
           in st\<lparr>cd_aggregate := cd_aggregate st @ rows,
                 validation_rows := validation_rows st @ rows,
                 processed_isins := processed_isins st \<union> set (map isin cds)\<rparr>
         else st)"

definition process_cps :: "string \<Rightarrow> string \<Rightarrow> item list \<Rightarrow> state \<Rightarrow> state" where
  "process_cps nc issuer issuer_items st =
     (let cps = filter (\<lambda>i. sec_category i = ''CP'' \<and> isin i \<notin> processed_isins st) issuer_items
      in if 2 \<le> length cps then
           let rows = map (agg_row ''CP'' nc issuer (generate_synthetic_isin issuer ''CP'' 1)
                             (generate_aggregated_name cps ''CP'')) cps
           in st\<lparr>cp_aggregate := cp_aggregate st @ rows,
                 validation_rows := validation_rows st @ rows,
                 processed_isins := processed_isins st \<union> set (map isin cps)\<rparr>
         else st)"

definition process_issuer :: "string \<Rightarrow> state \<Rightarrow> string \<times> item list \<Rightarrow> state" where
  \<comment> \<open>the body of the first loop \<open>for issuer_code, issuer_items in by_issuer.items()\<close>\<close>
  "process_issuer nc st g =
     (if length (remdups (map isin (snd g))) < 2 then st
      else
        process_cps nc (fst g) (snd g)
          (process_cds nc (fst g) (snd g)
             (foldl (process_base9 nc (fst g)) st (group_by base_9 (snd g)))))"

definition no_action_row :: "string \<Rightarrow> string \<Rightarrow> item \<Rightarrow> vrow" where
  "no_action_row nc issuer it =
     \<lparr>row_name_cut = nc, category = ''NO_ACTION'', action = ''NONE'',
      reason = ''Different issuer '' @ issuer @ '', valid separate company'',
      isin_original = isin it, isin_mapped = isin it,
      name_original = take 60 (name it), name_mapped = take 60 (name it),
      row_mv = mv it, row_issuer_code = issuer, is_target = False\<rparr>"

definition no_action_step :: "string \<Rightarrow> string \<Rightarrow> state \<Rightarrow> item \<Rightarrow> state" where
  "no_action_step nc issuer st it =
     (if isin it \<notin> processed_isins st then
        st\<lparr>no_action := no_action st @ [no_action_row nc issuer it],
           validation_rows := validation_rows st @ [no_action_row nc issuer it],
           processed_isins := insert (isin it) (processed_isins st)\<rparr>
      else st)"

definition no_action_issuer :: "string \<Rightarrow> state \<Rightarrow> string \<times> item list \<Rightarrow> state" where
  "no_action_issuer nc st g = foldl (no_action_step nc (fst g)) st (snd g)"

definition process_name_group :: "state \<Rightarrow> string \<times> item list \<Rightarrow> state" where
  \<comment> \<open>the body of the loop \<open>for name_cut, items in sorted(name_groups.items())\<close>\<close>
  "process_name_group st g =
     (if length (snd g) < 2 then st
      else if length (remdups (map isin (snd g))) < 2 then st
      else
        let by_issuer = group_by issuer_code (snd g);
            st1 = foldl (process_issuer (fst g)) st by_issuer
        in if 1 < length by_issuer then foldl (no_action_issuer (fst g)) st1 by_issuer
           else st1)"

definition name_groups_of :: "item list \<Rightarrow> state \<Rightarrow> (string \<times> item list) list" where
  \<comment> \<open>step 1: the items not yet processed, by \<open>name_cut\<close>\<close>
  "name_groups_of data st =
     group_by name_cut (filter (\<lambda>it. name_cut it \<noteq> [] \<and> isin it \<notin> processed_isins st) data)"

definition run_engine :: "item list \<Rightarrow> state" where
  "run_engine data =
     foldl process_name_group (goi_pass data)
       (sort_key fst (name_groups_of data (goi_pass data)))"

definition detect_and_categorize :: "item list \<Rightarrow> Results" where
  "detect_and_categorize data = Results.truncate (run_engine data)"

section \<open>The mapping artifact\<close>

definition mapping_fields :: "string \<Rightarrow> vrow \<Rightarrow> string list" where
  \<comment> \<open>the five fields of a line of the mapping file\<close>
  "mapping_fields cat r = [isin_original r, isin_mapped r, name_mapped r, cat, reason r]"

definition mapping_rows :: "Results \<Rightarrow> string list list" where
  \<comment> \<open>the lines that \<open>write_mapping_file\<close> appends after the header, before the joins\<close>
  "mapping_rows res =
     map (mapping_fields ''CORPORATE_ACTION'')
       (filter (\<lambda>r. action r = ''MAP'') (corporate_action res)) @
     map (mapping_fields ''CD_AGGREGATE'') (cd_aggregate res) @
     map (mapping_fields ''CP_AGGREGATE'') (cp_aggregate res) @
     map (mapping_fields ''TBILL_AGGREGATE'') (tbill_aggregate res) @
     map (mapping_fields ''GSEC_AGGREGATE'') (gsec_aggregate res)"






section \<open>Notions used to state the properties of the engine\<close>

definition all_rows :: "'a Results_scheme \<Rightarrow> vrow list" where
  \<comment> \<open>the rows of the six categories\<close>
  "all_rows res =
     corporate_action res @ cd_aggregate res @ cp_aggregate res @
     tbill_aggregate res @ gsec_aggregate res @ no_action res"

definition by_category :: "string \<Rightarrow> vrow list \<Rightarrow> vrow list" where
  \<comment> \<open>the rows of one category\<close>
  "by_category tag rows = filter (\<lambda>r. category r = tag) rows"

definition lists_inv :: "'a Results_scheme \<Rightarrow> bool" where
  \<comment> \<open>each category list holds the validation rows of its category, in order\<close>
  "lists_inv res =
     (corporate_action res = by_category ''CORPORATE_ACTION'' (validation_rows res) \<and>
      cd_aggregate res = by_category ''CD_AGGREGATE'' (validation_rows res) \<and>
      cp_aggregate res = by_category ''CP_AGGREGATE'' (validation_rows res) \<and>
      tbill_aggregate res = by_category ''TBILL_AGGREGATE'' (validation_rows res) \<and>
      gsec_aggregate res = by_category ''GSEC_AGGREGATE'' (validation_rows res) \<and>
      no_action res = by_category ''NO_ACTION'' (validation_rows res))"

definition part_inv :: "state \<Rightarrow> bool" where
  \<comment> \<open>the invariant of the loops on identifiers: each is recorded once, and is then in
     \<open>processed_isins\<close>\<close>
  "part_inv st =
     (distinct (map isin_original (validation_rows st)) \<and>
      isin_original ` set (validation_rows st) \<subseteq> processed_isins st \<and>
      lists_inv st)"

definition row_serial :: "vrow \<Rightarrow> string" where
  \<comment> \<open>the serial component of a row's identifier\<close>
  "row_serial r = take 2 (drop 9 (isin_original r))"

definition parsed_ok :: "item \<Rightarrow> bool" where
  \<comment> \<open>the item's components are those of its identifier, as \<open>load_item\<close> makes them\<close>
  "parsed_ok it =
     (12 \<le> length (isin it) \<and>
      issuer_code it = take 4 (drop 3 (isin it)) \<and>
      security_type it = take 2 (drop 7 (isin it)) \<and>
      serial it = take 2 (drop 9 (isin it)) \<and>
      base_9 it = take 9 (isin it) \<and>
      sec_category it = get_security_category (security_type it))"

definition ca_ok :: "vrow list \<Rightarrow> vrow \<Rightarrow> bool" where
  \<comment> \<open>what holds of a CORPORATE\_ACTION row \<open>r\<close> among the rows \<open>V\<close>: its group has a
     canonical row \<open>t\<close> and a mapped row \<open>m\<close>\<close>
  "ca_ok V r =
     ((\<exists>t\<in>set V. category t = ''CORPORATE_ACTION'' \<and> is_target t \<and> action t = ''TARGET'' \<and>
          isin_original t = isin_mapped r \<and> isin_mapped t = isin_mapped r \<and>
          name_original t = name_mapped r \<and> name_mapped t = name_mapped r \<and>
          row_name_cut t = row_name_cut r \<and>
          take 9 (isin_original t) = take 9 (isin_original r) \<and>
          row_serial r \<le> row_serial t) \<and>
      (\<exists>m\<in>set V. category m = ''CORPORATE_ACTION'' \<and> action m = ''MAP'' \<and>
          isin_mapped m = isin_mapped r) \<and>
      (is_target r \<longleftrightarrow> isin_original r = isin_mapped r) \<and>
      (is_target r \<longleftrightarrow> action r = ''TARGET'') \<and>
      (\<not> is_target r \<longleftrightarrow> action r = ''MAP'') \<and>
      take 2 (drop 7 (isin_original r)) = ''01'')"

definition row_ok :: "item list \<Rightarrow> vrow list \<Rightarrow> vrow \<Rightarrow> bool" where
  \<comment> \<open>what holds of every row \<open>r\<close> among the validation rows \<open>V\<close>\<close>
  "row_ok data V r =
     (isin_original r \<in> isin ` set data \<and>
      (category r = ''CORPORATE_ACTION'' \<longrightarrow> ca_ok V r) \<and>
      (category r \<in> {''CD_AGGREGATE'', ''CP_AGGREGATE'', ''TBILL_AGGREGATE'', ''GSEC_AGGREGATE''} \<longrightarrow>
         action r = ''AGGREGATE'' \<and> startswith (isin_mapped r) ''SYN'') \<and>
      (category r = ''NO_ACTION'' \<longrightarrow> action r = ''NONE''))"

definition rows_inv :: "item list \<Rightarrow> state \<Rightarrow> bool" where
  \<comment> \<open>the invariant of the loops on the rows\<close>
  "rows_inv data st = (\<forall>r\<in>set (validation_rows st). row_ok data (validation_rows st) r)"

definition engine_inv :: "item list \<Rightarrow> state \<Rightarrow> bool" where
  \<comment> \<open>the invariant of the loops of \<open>detect_and_categorize\<close>\<close>
  "engine_inv data st = (part_inv st \<and> rows_inv data st)"

definition tags_ok :: "'a Results_scheme \<Rightarrow> bool" where
  \<comment> \<open>each category list holds rows of its own category\<close>
  "tags_ok res =
     ((\<forall>r\<in>set (corporate_action res). category r = ''CORPORATE_ACTION'') \<and>
      (\<forall>r\<in>set (cd_aggregate res). category r = ''CD_AGGREGATE'') \<and>
      (\<forall>r\<in>set (cp_aggregate res). category r = ''CP_AGGREGATE'') \<and>
      (\<forall>r\<in>set (tbill_aggregate res). category r = ''TBILL_AGGREGATE'') \<and>
      (\<forall>r\<in>set (gsec_aggregate res). category r = ''GSEC_AGGREGATE'') \<and>
      (\<forall>r\<in>set (no_action res). category r = ''NO_ACTION''))"

definition two_digits :: "string \<Rightarrow> bool" where
  \<comment> \<open>a serial of two decimal digits\<close>
  "two_digits s = (length s = 2 \<and> (\<forall>c\<in>set s. is_digit c))"

definition serial_number :: "string \<Rightarrow> nat" where
  \<comment> \<open>the number that a serial of two decimal digits denotes\<close>
  "serial_number s = 10 * (of_char (s ! 0) - 48) + (of_char (s ! 1) - 48)"

text \<open>A small ledger: a T-Bill, an equity whose identifier changed, and two certificates of deposit.\<close>

definition sample_fetched :: "fetched list" where
  "sample_fetched =
     [\<lparr>f_isin_assigned = ''IN0020230010'',
       f_name_final = Some ''GOVERNMENT OF INDIA 364 DAYS TBILL 06NV25'',
       f_instrument_name = Some ''364 Days Tbill'', f_total_mv = Some (Fin 500)\<rparr>,
      \<lparr>f_isin_assigned = ''INE012A01015'', f_name_final = Some ''ACME INDUSTRIES LIMITED'',
       f_instrument_name = Some ''Acme Industries Ltd'', f_total_mv = Some (Fin 100)\<rparr>,
      \<lparr>f_isin_assigned = ''INE012A01023'', f_name_final = Some ''ACME INDUSTRIES LIMITED NEW'',
       f_instrument_name = Some ''Acme Industries Ltd'', f_total_mv = Some (Fin 200)\<rparr>,
      \<lparr>f_isin_assigned = ''INE045B16011'', f_name_final = None,
       f_instrument_name = Some ''Beta Bank Limited CD 08JAN26'', f_total_mv = Some (Fin 300)\<rparr>,
      \<lparr>f_isin_assigned = ''INE045B16029'', f_name_final = Some [],
       f_instrument_name = Some ''Beta Bank Limited CD 10FEB26'', f_total_mv = None\<rparr>]"

definition sample_mapped_row :: vrow where
  "sample_mapped_row =
     \<lparr>row_name_cut = ''acmeind'', category = ''CORPORATE_ACTION'', action = ''MAP'',
      reason = ''Same issuer 012A, equity, serial 01 -> 02'',
      isin_original = ''INE012A01015'', isin_mapped = ''INE012A01023'',
      name_original = ''ACME INDUSTRIES LIMITED'', name_mapped = ''ACME INDUSTRIES LIMITED NEW'',
      row_mv = Fin 100, row_issuer_code = ''012A'', is_target = False\<rparr>"

definition sample_target_row :: vrow where
  "sample_target_row =
     \<lparr>row_name_cut = ''acmeind'', category = ''CORPORATE_ACTION'', action = ''TARGET'',
      reason = ''Same issuer 012A, equity, serial 02 (TARGET - newest)'',
      isin_original = ''INE012A01023'', isin_mapped = ''INE012A01023'',
      name_original = ''ACME INDUSTRIES LIMITED NEW'', name_mapped = ''ACME INDUSTRIES LIMITED NEW'',
      row_mv = Fin 200, row_issuer_code = ''012A'', is_target = True\<rparr>"

definition sample_cd_row :: "string \<Rightarrow> string \<Rightarrow> pyfloat \<Rightarrow> vrow" where
  "sample_cd_row i nm v =
     \<lparr>row_name_cut = ''betaban'', category = ''CD_AGGREGATE'', action = ''AGGREGATE'',
      reason = ''CD for issuer 045B, aggregate to synthetic'',
      isin_original = i, isin_mapped = ''SYN045BCD01'',
      name_original = nm, name_mapped = ''BETA BANK CD'',
      row_mv = v, row_issuer_code = ''045B'', is_target = False\<rparr>"

definition sample_tbill_row :: vrow where
  "sample_tbill_row =
     \<lparr>row_name_cut = ''governm'', category = ''TBILL_AGGREGATE'', action = ''AGGREGATE'',
      reason = ''GOI T-Bill, aggregate to synthetic'',
      isin_original = ''IN0020230010'', isin_mapped = ''SYNGOITBILL01'',
      name_original = ''GOVERNMENT OF INDIA 364 DAYS TBILL 06NV25'', name_mapped = ''GOI T-BILL'',
      row_mv = Fin 500, row_issuer_code = ''GOI'', is_target = False\<rparr>"

definition sample_results :: Results where
  "sample_results =
     \<lparr>corporate_action = [sample_mapped_row, sample_target_row],
      cd_aggregate =
        [sample_cd_row ''INE045B16011'' ''Beta Bank Limited CD 08JAN26'' (Fin 300),
         sample_cd_row ''INE045B16029'' ''Beta Bank Limited CD 10FEB26'' (Fin 0)],
      cp_aggregate = [],
      tbill_aggregate = [sample_tbill_row],
      gsec_aggregate = [], no_action = [],
      validation_rows =
        [sample_tbill_row, sample_mapped_row, sample_target_row,
         sample_cd_row ''INE045B16011'' ''Beta Bank Limited CD 08JAN26'' (Fin 300),
         sample_cd_row ''INE045B16029'' ''Beta Bank Limited CD 10FEB26'' (Fin 0)]\<rparr>"

definition is_goi :: "item \<Rightarrow> bool" where
  \<comment> \<open>an item that the pre-step records as a T-Bill or a G-Sec\<close>
  "is_goi it =
     (detect_goi_security (name it) = Some ''TBILL'' \<or>
      detect_goi_security (name it) = Some ''GSEC'')"

definition ca_group :: "item list \<Rightarrow> string \<Rightarrow> string \<Rightarrow> item list" where
  \<comment> \<open>a group of step 2: the items, in the order of the data, that share a name cut and a
     9-character base prefix, the Government of India securities apart\<close>
  "ca_group data nc b9 =
     filter (\<lambda>it. name_cut it = nc \<and> base_9 it = b9 \<and> \<not> is_goi it) data"

definition step_ok :: "string set \<Rightarrow> state \<Rightarrow> state \<Rightarrow> bool" where
  \<comment> \<open>a step from \<open>st\<close> to \<open>st'\<close> that records identifiers of \<open>S\<close> only, none of them
     processed before\<close>
  "step_ok S st st' =
     (\<exists>rows. corporate_action st' = corporate_action st @ rows \<and>
        (\<forall>r\<in>set rows. isin_original r \<in> S \<and> isin_original r \<notin> processed_isins st) \<and>
        processed_isins st \<subseteq> processed_isins st' \<and>
        processed_isins st' \<subseteq> processed_isins st \<union> S)"

definition clear_of :: "string set \<Rightarrow> state \<Rightarrow> bool" where
  \<comment> \<open>no identifier of \<open>S\<close> is processed or has a CORPORATE\_ACTION row\<close>
  "clear_of S st =
     (S \<inter> processed_isins st = {} \<and> (\<forall>r\<in>set (corporate_action st). isin_original r \<notin> S))"

definition has_block :: "string set \<Rightarrow> vrow list \<Rightarrow> state \<Rightarrow> bool" where
  \<comment> \<open>the identifiers of \<open>S\<close> are processed, and their CORPORATE\_ACTION rows are \<open>B\<close>\<close>
  "has_block S B st =
     (S \<subseteq> processed_isins st \<and>
      filter (\<lambda>r. isin_original r \<in> S) (corporate_action st) = B)"

text \<open>Four equity identifiers of one issuer and one base prefix, under two names.\<close>

definition two_names_fetched :: "fetched list" where
  "two_names_fetched =
     [\<lparr>f_isin_assigned = ''INE012A01015'', f_name_final = Some ''ACME INDUSTRIES LIMITED'',
       f_instrument_name = Some ''Acme Industries Ltd'', f_total_mv = Some (Fin 100)\<rparr>,
      \<lparr>f_isin_assigned = ''INE012A01023'', f_name_final = Some ''ACME INDUSTRIES LIMITED NEW'',
       f_instrument_name = Some ''Acme Industries Ltd'', f_total_mv = Some (Fin 200)\<rparr>,
      \<lparr>f_isin_assigned = ''INE012A01031'', f_name_final = Some ''ZETA HOLDINGS LIMITED'',
       f_instrument_name = Some ''Zeta Holdings Ltd'', f_total_mv = Some (Fin 300)\<rparr>,
      \<lparr>f_isin_assigned = ''INE012A01049'', f_name_final = Some ''ZETA HOLDINGS LIMITED NEW'',
       f_instrument_name = Some ''Zeta Holdings Ltd'', f_total_mv = Some (Fin 400)\<rparr>]"

text \<open>The CORPORATE\_ACTION rows of these four identifiers.\<close>

definition two_names_rows :: "vrow list" where
  "two_names_rows =
     [\<lparr>row_name_cut = ''acmeind'', category = ''CORPORATE_ACTION'', action = ''MAP'',
       reason = ''Same issuer 012A, equity, serial 01 -> 02'',
       isin_original = ''INE012A01015'', isin_mapped = ''INE012A01023'',
       name_original = ''ACME INDUSTRIES LIMITED'', name_mapped = ''ACME INDUSTRIES LIMITED NEW'',
       row_mv = Fin 100, row_issuer_code = ''012A'', is_target = False\<rparr>,
      \<lparr>row_name_cut = ''acmeind'', category = ''CORPORATE_ACTION'', action = ''TARGET'',
       reason = ''Same issuer 012A, equity, serial 02 (TARGET - newest)'',
       isin_original = ''INE012A01023'', isin_mapped = ''INE012A01023'',
       name_original = ''ACME INDUSTRIES LIMITED NEW'',
       name_mapped = ''ACME INDUSTRIES LIMITED NEW'',
       row_mv = Fin 200, row_issuer_code = ''012A'', is_target = True\<rparr>,
      \<lparr>row_name_cut = ''zetahol'', category = ''CORPORATE_ACTION'', action = ''MAP'',
       reason = ''Same issuer 012A, equity, serial 03 -> 04'',
       isin_original = ''INE012A01031'', isin_mapped = ''INE012A01049'',
       name_original = ''ZETA HOLDINGS LIMITED'', name_mapped = ''ZETA HOLDINGS LIMITED NEW'',
       row_mv = Fin 300, row_issuer_code = ''012A'', is_target = False\<rparr>,
      \<lparr>row_name_cut = ''zetahol'', category = ''CORPORATE_ACTION'', action = ''TARGET'',
       reason = ''Same issuer 012A, equity, serial 04 (TARGET - newest)'',
       isin_original = ''INE012A01049'', isin_mapped = ''INE012A01049'',
       name_original = ''ZETA HOLDINGS LIMITED NEW'',
       name_mapped = ''ZETA HOLDINGS LIMITED NEW'',
       row_mv = Fin 400, row_issuer_code = ''012A'', is_target = True\<rparr>]"

section \<open>Notions used to state the round trip of the mapping artifact\<close>



















section \<open>Properties of IdentifierAssigner\<close>

lemma is_valid_isin_iff: "is_valid_isin s \<longleftrightarrow> startswith s ''IN'' \<and> 12 \<le> length s"
  by (auto simp: is_valid_isin_def)

lemma is_valid_isin_OTHER: "is_valid_isin ISIN_OTHER"
  by (simp add: is_valid_isin_def ISIN_OTHER_def startswith_def)

text \<open>
  Claim C4. For every string \<open>s\<close> (and every instrument name, which \<open>assign_isin\<close>
  ignores): when \<open>s\<close> starts with "IN" and has at least 12 characters, \<open>assign_isin\<close>
  returns \<open>s\<close> unchanged; for every other string, the empty one included, it returns the
  fixed synthetic cash identifier \<open>IN9999999999\<close>.
\<close>

theorem assign_isin_spec:
  "(startswith s ''IN'' \<and> 12 \<le> length s \<longrightarrow> assign_isin s nm = s) \<and>
   (\<not> (startswith s ''IN'' \<and> 12 \<le> length s) \<longrightarrow> assign_isin s nm = ''IN9999999999'')"
  by (auto simp: assign_isin_def is_valid_isin_def ISIN_OTHER_def startswith_def)

theorem assign_isin_spec_witness:
  "assign_isin ''INE000000010'' ''Some Company Ltd'' = ''INE000000010'' \<and>
   assign_isin ''INE00000001'' ''Eleven chars'' = ''IN9999999999'' \<and>
   assign_isin '''' ''TREPS'' = ''IN9999999999''"
proof -
  have v: "startswith ''INE000000010'' ''IN'' \<and> 12 \<le> length ''INE000000010''"
    by (simp add: startswith_def)
  have s: "\<not> (startswith ''INE00000001'' ''IN'' \<and> 12 \<le> length ''INE00000001'')"
    by (simp add: startswith_def)
  have e: "\<not> (startswith '''' ''IN'' \<and> 12 \<le> length '''')"
    by (simp add: startswith_def)
  from v assign_isin_spec [of "''INE000000010''" "''Some Company Ltd''"]
  have 1: "assign_isin ''INE000000010'' ''Some Company Ltd'' = ''INE000000010''" by blast
  from s assign_isin_spec [of "''INE00000001''" "''Eleven chars''"]
  have 2: "assign_isin ''INE00000001'' ''Eleven chars'' = ''IN9999999999''" by blast
  from e assign_isin_spec [of "''''" "''TREPS''"]
  have 3: "assign_isin '''' ''TREPS'' = ''IN9999999999''" by blast
  from 1 2 3 show ?thesis by blast
qed

text \<open>
  Claim C9. The synthetic cash identifier is itself a valid identifier, so
  \<open>assign_isin\<close> is idempotent and each of its results is valid.
\<close>

theorem assign_isin_idempotent:
  "is_valid_isin ISIN_OTHER \<and>
   assign_isin (assign_isin s nm) nm' = assign_isin s nm \<and>
   is_valid_isin (assign_isin s nm)"
  using is_valid_isin_OTHER by (simp add: assign_isin_def)

theorem assign_isin_idempotent_witness:
  "assign_isin (assign_isin ''TREPS'' ''TREPS'') ''TREPS'' = ''IN9999999999'' \<and>
   is_valid_isin (assign_isin ''TREPS'' ''TREPS'')"
proof -
  have "assign_isin ''TREPS'' ''TREPS'' = ''IN9999999999''"
    by (simp add: assign_isin_def is_valid_isin_def ISIN_OTHER_def startswith_def)
  with assign_isin_idempotent [of "''TREPS''" "''TREPS''" "''TREPS''"] show ?thesis
    by simp
qed

section \<open>Properties of GrandTotalLocator\<close>

text \<open>
  Claim C7 as stated fails: \<open>find_grand_total\<close> catches \<open>ValueError\<close> and \<open>TypeError\<close> only.
  On a "grand total" row that is narrower than the value column index, \<open>row.iloc\<close> raises
  \<open>IndexError\<close>; on a "grand total" row whose value cell is an \<open>int\<close> beyond the range of a
  double (here the 310-digit number 99...9), \<open>float\<close> raises \<open>OverflowError\<close>.
\<close>

theorem find_grand_total_counterexample:
  "find_grand_total [[Val ''Grand Total'' None, Val ''350'' (Some (Fin 350))]] (Some 5) =
     Inl IndexError \<and>
   find_grand_total [[Val ''Grand Total'' None, Big (replicate 310 (CHR ''9''))]] (Some 1) =
     Inl OverflowError"
  by code_simp

lemma py_float_in_range: "in_float_range c \<Longrightarrow> py_float c = Inr (float_of c)"
  by (cases c) (simp_all add: in_float_range_def float_of_def py_float_def)

lemma first_large_spec:
  "\<forall>c\<in>set r. in_float_range c \<Longrightarrow> first_large r = Inr (spec_first_large r)"
proof (induction r)
  case Nil
  then show ?case by (simp add: spec_first_large_def numeric_values_def List.map_filter_simps)
next
  case (Cons c cs)
  have p: "py_float c = Inr (float_of c)" using Cons.prems by (simp add: py_float_in_range)
  have ih: "first_large cs = Inr (spec_first_large cs)" using Cons by simp
  show ?case using p ih
    by (auto simp: spec_first_large_def numeric_values_def List.map_filter_simps
        split: option.splits)
qed

lemma grand_total_in_row_spec:
  assumes "0 < length r" "col_in_row col r" "\<forall>c\<in>set r. in_float_range c"
  shows "grand_total_in_row r col = Inr (spec_row_total r col)"
proof -
  have f: "first_large r = Inr (spec_first_large r)" using assms(3) by (rule first_large_spec)
  have p: "\<And>k. k < length r \<Longrightarrow> py_float (r ! k) = Inr (float_of (r ! k))"
    using assms(3) by (simp add: py_float_in_range)
  show ?thesis
    using assms(1,2) f p
    by (cases col)
       (auto simp: grand_total_in_row_def spec_row_total_def col_in_row_def iloc_def Let_def
          split: option.splits)
qed

lemma find_grand_total_from_spec:
  assumes "\<forall>r\<in>set df. 0 < length r \<and> col_in_row col r \<and> (\<forall>c\<in>set r. in_float_range c)"
  shows "\<exists>res. find_grand_total_from idx df col = Inr res \<and>
     (case res of
        None \<Rightarrow> (\<forall>r\<in>set df. spec_row_total r col = None)
      | Some (n, v) \<Rightarrow> idx < n \<and> n \<le> idx + length df \<and>
          spec_row_total (df ! (n - 1 - idx)) col = Some v \<and>
          (\<forall>j < n - 1 - idx. spec_row_total (df ! j) col = None))"
  using assms
proof (induction df arbitrary: idx)
  case Nil
  then show ?case by simp
next
  case (Cons r rs)
  have g: "grand_total_in_row r col = Inr (spec_row_total r col)"
    using Cons.prems by (simp add: grand_total_in_row_spec)
  show ?case
  proof (cases "spec_row_total r col")
    case (Some v)
    then show ?thesis using g by simp
  next
    case None
    from Cons.IH [of "idx + 1"] Cons.prems
    obtain res where res: "find_grand_total_from (idx + 1) rs col = Inr res"
      and c: "(case res of
        None \<Rightarrow> (\<forall>r\<in>set rs. spec_row_total r col = None)
      | Some (n, v) \<Rightarrow> idx + 1 < n \<and> n \<le> idx + 1 + length rs \<and>
          spec_row_total (rs ! (n - 1 - (idx + 1))) col = Some v \<and>
          (\<forall>j < n - 1 - (idx + 1). spec_row_total (rs ! j) col = None))"
      by auto
    show ?thesis
    proof (cases res)
      case None':None
      then show ?thesis using res c None g by simp
    next
      case (Some p)
      obtain n v where p: "p = (n, v)" by (cases p)
      from c Some p have 1: "idx + 1 < n" "n \<le> idx + 1 + length rs"
        "spec_row_total (rs ! (n - 1 - (idx + 1))) col = Some v"
        "\<forall>j < n - 1 - (idx + 1). spec_row_total (rs ! j) col = None" by auto
      from 1(1) have e: "n - 1 - idx = Suc (n - 1 - (idx + 1))" by arith
      have "\<forall>j < n - 1 - idx. spec_row_total ((r # rs) ! j) col = None"
      proof (intro allI impI)
        fix j assume "j < n - 1 - idx"
        then show "spec_row_total ((r # rs) ! j) col = None"
          using None 1(4) e by (cases j) auto
      qed
      then show ?thesis using res Some p None g 1 e by simp
    qed
  qed
qed

text \<open>
  Claim C7, amended. On a sheet whose rows have at least one cell and hold no \<open>int\<close> beyond
  the range of a double, and for a value column index that is absent or within every row,
  \<open>find_grand_total\<close> never raises: it returns "not found" when no row declares a total, and
  otherwise the 1-based number of the first row, in row order, that declares one, with the
  declared value (the value column of a "grand total" row, or the first numeric cell above
  10,000 of a "total net assets" or exact-"total" row).
\<close>

theorem find_grand_total_total:
  assumes "\<forall>r\<in>set df. 0 < length r \<and> col_in_row col r \<and> (\<forall>c\<in>set r. in_float_range c)"
  shows "\<exists>res. find_grand_total df col = Inr res \<and>
     (case res of
        None \<Rightarrow> (\<forall>r\<in>set df. spec_row_total r col = None)
      | Some (n, v) \<Rightarrow> 0 < n \<and> n \<le> length df \<and>
          spec_row_total (df ! (n - 1)) col = Some v \<and>
          (\<forall>j < n - 1. spec_row_total (df ! j) col = None))"
  using find_grand_total_from_spec [OF assms, of 0]
  by (auto simp: find_grand_total_def split: option.splits)

theorem find_grand_total_total_witness:
  "\<exists>res. find_grand_total
       [[Val ''Acme Ltd'' None, Val ''100.0'' (Some (Fin 100))],
        [Val ''Grand Total'' None, Val ''350.0'' (Some (Fin 350))]] (Some 1) = Inr res \<and>
     (case res of
        None \<Rightarrow> False
      | Some (n, v) \<Rightarrow> n = 2 \<and> v = Fin 350)"
proof -
  let ?df = "[[Val ''Acme Ltd'' None, Val ''100.0'' (Some (Fin 100))],
        [Val ''Grand Total'' None, Val ''350.0'' (Some (Fin 350))]]"
  have h: "\<forall>r\<in>set ?df. 0 < length r \<and> col_in_row (Some 1) r \<and> (\<forall>c\<in>set r. in_float_range c)"
    by (simp add: col_in_row_def in_float_range_def)
  have e: "find_grand_total ?df (Some 1) = Inr (Some (2, Fin 350))" by code_simp
  from find_grand_total_total [OF h] e show ?thesis by simp
qed

section \<open>Properties of SchemaDetector\<close>

lemma find_header_row_None: "\<not> list_ex has_isin_cell df \<Longrightarrow> find_header_row i df = None"
  by (induction df arbitrary: i) auto

lemma detect_schema_no_header:
  "\<not> list_ex has_isin_cell df \<Longrightarrow> detect_schema df = Inl ValueError"
  by (simp add: detect_schema_def find_header_row_None)

text \<open>
  Claim C8. A sheet with no "isin"-bearing cell makes \<open>detect_schema\<close> raise
  (\<open>detect_schema_no_header\<close>). A sheet with a header row and no row below it whose
  identifier cell starts with "IN" does not: \<open>detect_schema\<close> returns a schema whose
  \<open>data_start_row\<close> is \<open>None\<close>, against the claim and against the declaration
  \<open>data_start_row: int\<close> of the dataclass. The theorem evaluates the code on such a sheet.
\<close>

theorem detect_schema_no_data_start:
  "detect_schema
     [[Val ''Name of the Instrument'' None, Val ''ISIN'' None, Val ''Market Value'' None],
      [Val ''Equity & Equity related'' None, Blank, Blank]] =
   Inr \<lparr>data_start_row = None, isin_col = Some 1, name_col = Some 0,
        market_value_col = Some 2, quantity_col = None,
        grand_total_row = None, grand_total = None\<rparr>"
  by code_simp

theorem detect_schema_no_data_start_witness:
  "map_sum id data_start_row
     (detect_schema
        [[Val ''Name of the Instrument'' None, Val ''ISIN'' None, Val ''Market Value'' None],
         [Val ''Equity & Equity related'' None, Blank, Blank]]) = Inr None"
  using detect_schema_no_data_start by simp

section \<open>Properties of RowExtractor\<close>

lemma section_header_rule_12:
  "startswith isin_lower ''in'' \<Longrightarrow> length isin_lower = 12 \<Longrightarrow>
   \<not> section_header_rule name_lower isin_lower"
  by (simp add: section_header_rule_def)

text \<open>
  Claim C6. The section-header rule is guarded by \<open>len(isin_lower) != 12\<close>, while
  \<open>is_valid_isin\<close> accepts every length from 12 on. An identifier of 13 characters is
  valid and still falls under the rule: the row below is skipped for its name alone, and
  the same row with a 12-character identifier is kept. (For an identifier of exactly 12
  characters the rule never applies: \<open>section_header_rule_12\<close>.)
\<close>

theorem section_header_rule_long_isin:
  "is_valid_isin ''INE0000000100'' \<and>
   section_header_rule (strip (lower ''Treasury Bills'')) (strip (lower ''INE0000000100'')) \<and>
   is_aggregation_row ''Treasury Bills'' ''INE0000000100'' ''Treasury Bills INE0000000100 100.0'' \<and>
   \<not> is_aggregation_row ''Treasury Bills'' ''INE000000010'' ''Treasury Bills INE000000010 100.0''"
  by code_simp

theorem section_header_rule_long_isin_witness:
  "is_aggregation_row ''Treasury Bills'' ''INE0000000100'' ''Treasury Bills INE0000000100 100.0''"
  using section_header_rule_long_isin by simp




lemma stop_condition_ok:
  "cols_ok schema r \<Longrightarrow> \<exists>b. stop_condition r = Inr b"
  by (auto simp: stop_condition_def cols_ok_def col_in_row_def iloc_def Let_def)








section \<open>Properties of the ReconciliationEngine\<close>

lemma dd_append_keys:
  "map fst (dd_append k v d) = (if k \<in> set (map fst d) then map fst d else map fst d @ [k])"
  by (induction d) auto

lemma dd_append_filter:
  assumes "\<forall>e\<in>set d. snd e = filter (\<lambda>y. f y = fst e) xs"
    and "f x \<notin> fst ` set d \<longrightarrow> filter (\<lambda>y. f y = f x) xs = []"
    and "distinct (map fst d)"
  shows "\<forall>e\<in>set (dd_append (f x) x d). snd e = filter (\<lambda>y. f y = fst e) (xs @ [x])"
  using assms
proof (induction d)
  case Nil
  then show ?case by simp
next
  case (Cons e es)
  show ?case
  proof (cases "fst e = f x")
    case True
    have "\<forall>e'\<in>set es. fst e' \<noteq> f x" using Cons.prems(3) True by force
    then show ?thesis using Cons.prems(1) True by auto
  next
    case False
    have "\<forall>e\<in>set (dd_append (f x) x es). snd e = filter (\<lambda>y. f y = fst e) (xs @ [x])"
      using Cons.prems False by (intro Cons.IH) auto
    then show ?thesis using Cons.prems(1) False by auto
  qed
qed

lemma group_by_snoc: "group_by f (xs @ [x]) = dd_append (f x) x (group_by f xs)"
  by (simp add: group_by_def)

lemma group_by_keys:
  "distinct (map fst (group_by f xs)) \<and> set (map fst (group_by f xs)) = f ` set xs"
proof (induction xs rule: rev_induct)
  case Nil
  then show ?case by (simp add: group_by_def)
next
  case (snoc x xs)
  then show ?case by (auto simp: group_by_snoc dd_append_keys)
qed

lemma group_by_filter:
  "\<forall>e\<in>set (group_by f xs). snd e = filter (\<lambda>y. f y = fst e) xs"
proof (induction xs rule: rev_induct)
  case Nil
  then show ?case by (simp add: group_by_def)
next
  case (snoc x xs)
  have k: "distinct (map fst (group_by f xs))" "set (map fst (group_by f xs)) = f ` set xs"
    using group_by_keys [of f xs] by auto
  have "f x \<notin> fst ` set (group_by f xs) \<longrightarrow> filter (\<lambda>y. f y = f x) xs = []"
  proof
    assume "f x \<notin> fst ` set (group_by f xs)"
    then have "f x \<notin> f ` set xs" using k(2) by simp
    then have "\<forall>y\<in>set xs. f y \<noteq> f x" by (metis imageI)
    then show "filter (\<lambda>y. f y = f x) xs = []" by (simp add: filter_empty_conv)
  qed
  then show ?case unfolding group_by_snoc using snoc k(1) by (intro dd_append_filter) auto
qed

lemma group_by_subset: "g \<in> set (group_by f xs) \<Longrightarrow> set (snd g) \<subseteq> set xs"
  using group_by_filter [of f xs] by auto

lemma group_by_key: "g \<in> set (group_by f xs) \<Longrightarrow> x \<in> set (snd g) \<Longrightarrow> f x = fst g"
  using group_by_filter [of f xs] by auto

lemma group_by_distinct:
  "g \<in> set (group_by f xs) \<Longrightarrow> distinct (map h xs) \<Longrightarrow> distinct (map h (snd g))"
  using group_by_filter [of f xs] by (auto simp: distinct_map_filter)

lemma by_category_same: "\<forall>r\<in>set rows. category r = tag \<Longrightarrow> by_category tag rows = rows"
  by (simp add: by_category_def)

lemma by_category_other:
  "\<forall>r\<in>set rows. category r = tag' \<Longrightarrow> tag \<noteq> tag' \<Longrightarrow> by_category tag rows = []"
  by (simp add: by_category_def)

lemma by_category_append:
  "by_category tag (xs @ ys) = by_category tag xs @ by_category tag ys"
  by (simp add: by_category_def)

lemma part_inv_rows:
  assumes "distinct (map isin_original V)" "isin_original ` set V \<subseteq> Q"
    "distinct (map isin_original rows)" "isin_original ` set rows \<inter> Q = {}"
    "isin_original ` set rows \<subseteq> P"
  shows "distinct (map isin_original (V @ rows)) \<and> isin_original ` set (V @ rows) \<subseteq> Q \<union> P"
proof -
  have "isin_original ` set V \<inter> isin_original ` set rows = {}" using assms(2,4) by blast
  then have "distinct (map isin_original (V @ rows))" using assms(1,3) by simp
  moreover have "isin_original ` set (V @ rows) \<subseteq> Q \<union> P" using assms(2,5) by auto
  ultimately show ?thesis by simp
qed

lemma part_inv_ca:
  assumes "part_inv st" "distinct (map isin_original rows)"
    "isin_original ` set rows \<inter> processed_isins st = {}"
    "\<forall>r\<in>set rows. category r = ''CORPORATE_ACTION''"
    "isin_original ` set rows \<subseteq> P"
  shows "part_inv (st\<lparr>corporate_action := corporate_action st @ rows,
                      validation_rows := validation_rows st @ rows,
                      processed_isins := processed_isins st \<union> P\<rparr>)"
proof -
  note o = by_category_other [OF assms(4)]
  have l: "lists_inv (st\<lparr>corporate_action := corporate_action st @ rows,
                      validation_rows := validation_rows st @ rows,
                      processed_isins := processed_isins st \<union> P\<rparr>)"
    using assms(1) by (simp add: part_inv_def lists_inv_def by_category_append
        by_category_same [OF assms(4)] o)
  have d: "distinct (map isin_original (validation_rows st))"
    and q: "isin_original ` set (validation_rows st) \<subseteq> processed_isins st"
    using assms(1) by (simp_all add: part_inv_def)
  from part_inv_rows [OF d q assms(2,3,5)]
  show ?thesis using l by (simp add: part_inv_def)
qed

lemma part_inv_cd:
  assumes "part_inv st" "distinct (map isin_original rows)"
    "isin_original ` set rows \<inter> processed_isins st = {}"
    "\<forall>r\<in>set rows. category r = ''CD_AGGREGATE''"
    "isin_original ` set rows \<subseteq> P"
  shows "part_inv (st\<lparr>cd_aggregate := cd_aggregate st @ rows,
                      validation_rows := validation_rows st @ rows,
                      processed_isins := processed_isins st \<union> P\<rparr>)"
proof -
  note o = by_category_other [OF assms(4)]
  have l: "lists_inv (st\<lparr>cd_aggregate := cd_aggregate st @ rows,
                      validation_rows := validation_rows st @ rows,
                      processed_isins := processed_isins st \<union> P\<rparr>)"
    using assms(1) by (simp add: part_inv_def lists_inv_def by_category_append
        by_category_same [OF assms(4)] o)
  have d: "distinct (map isin_original (validation_rows st))"
    and q: "isin_original ` set (validation_rows st) \<subseteq> processed_isins st"
    using assms(1) by (simp_all add: part_inv_def)
  from part_inv_rows [OF d q assms(2,3,5)]
  show ?thesis using l by (simp add: part_inv_def)
qed

lemma part_inv_cp:
  assumes "part_inv st" "distinct (map isin_original rows)"
    "isin_original ` set rows \<inter> processed_isins st = {}"
    "\<forall>r\<in>set rows. category r = ''CP_AGGREGATE''"
    "isin_original ` set rows \<subseteq> P"
  shows "part_inv (st\<lparr>cp_aggregate := cp_aggregate st @ rows,
                      validation_rows := validation_rows st @ rows,
                      processed_isins := processed_isins st \<union> P\<rparr>)"
proof -
  note o = by_category_other [OF assms(4)]
  have l: "lists_inv (st\<lparr>cp_aggregate := cp_aggregate st @ rows,
                      validation_rows := validation_rows st @ rows,
                      processed_isins := processed_isins st \<union> P\<rparr>)"
    using assms(1) by (simp add: part_inv_def lists_inv_def by_category_append
        by_category_same [OF assms(4)] o)
  have d: "distinct (map isin_original (validation_rows st))"
    and q: "isin_original ` set (validation_rows st) \<subseteq> processed_isins st"
    using assms(1) by (simp_all add: part_inv_def)
  from part_inv_rows [OF d q assms(2,3,5)]
  show ?thesis using l by (simp add: part_inv_def)
qed

lemma part_inv_na:
  assumes "part_inv st" "isin_original r \<notin> processed_isins st" "category r = ''NO_ACTION''"
  shows "part_inv (st\<lparr>no_action := no_action st @ [r],
                      validation_rows := validation_rows st @ [r],
                      processed_isins := insert (isin_original r) (processed_isins st)\<rparr>)"
proof -
  have c: "\<forall>x\<in>set [r]. category x = ''NO_ACTION''" using assms(3) by simp
  note o = by_category_other [OF c]
  have l: "lists_inv (st\<lparr>no_action := no_action st @ [r],
                      validation_rows := validation_rows st @ [r],
                      processed_isins := insert (isin_original r) (processed_isins st)\<rparr>)"
    using assms(1) by (simp add: part_inv_def lists_inv_def by_category_append
        by_category_same [OF c] o)
  have d: "distinct (map isin_original (validation_rows st))"
    and q: "isin_original ` set (validation_rows st) \<subseteq> processed_isins st"
    using assms(1) by (simp_all add: part_inv_def)
  have "isin_original r \<notin> isin_original ` set (validation_rows st)" using q assms(2) by blast
  then show ?thesis using l d q by (auto simp: part_inv_def)
qed

lemma ca_ok_mono: "ca_ok V r \<Longrightarrow> set V \<subseteq> set V' \<Longrightarrow> ca_ok V' r"
  unfolding ca_ok_def by blast

lemma row_ok_mono: "row_ok data V r \<Longrightarrow> set V \<subseteq> set V' \<Longrightarrow> row_ok data V' r"
  unfolding row_ok_def using ca_ok_mono by blast

lemma rows_inv_append:
  assumes "\<forall>r\<in>set V. row_ok data V r" "\<forall>r\<in>set rows. row_ok data rows r"
  shows "\<forall>r\<in>set (V @ rows). row_ok data (V @ rows) r"
proof
  fix r assume "r \<in> set (V @ rows)"
  then consider "r \<in> set V" | "r \<in> set rows" by auto
  then show "row_ok data (V @ rows) r"
  proof cases
    case 1
    then show ?thesis using assms(1) row_ok_mono [of data V r "V @ rows"] by auto
  next
    case 2
    then show ?thesis using assms(2) row_ok_mono [of data rows r "V @ rows"] by auto
  qed
qed

lemma sorted_last_max:
  "sorted (map f ys) \<Longrightarrow> y \<in> set ys \<Longrightarrow> f y \<le> f (last ys)"
proof (induction ys)
  case Nil
  then show ?case by simp
next
  case (Cons a ys)
  then show ?case by (cases "ys = []") auto
qed

lemma distinct_other:
  assumes "distinct (map f xs)" "2 \<le> length xs"
  shows "\<exists>x\<in>set xs. f x \<noteq> c"
proof -
  obtain a b rest where xs: "xs = a # b # rest"
    using assms(2) by (cases xs; cases "tl xs") auto
  then have "f a \<noteq> f b" using assms(1) by auto
  then have "f a \<noteq> c \<or> f b \<noteq> c" by auto
  then show ?thesis using xs by auto
qed

lemma take_drop_79: "take 2 (drop 7 (take 9 s)) = take 2 (drop 7 s)"
  by (simp add: drop_take take_take)

lemma ca_block_ok:
  assumes sub: "set U \<subseteq> set data" and ok: "\<forall>it\<in>set data. parsed_ok it"
    and dist: "distinct (map isin U)" and len: "2 \<le> length U"
    and b9: "\<forall>it\<in>set U. base_9 it = b" and eq: "security_type (hd U) = ''01''"
    and S_def: "S = sort_key serial U"
    and rows_def: "rows = map (ca_row nc issuer (last S)) S"
  shows "\<forall>r\<in>set rows. row_ok data rows r"
proof
  fix r assume "r \<in> set rows"
  then obtain it where it: "it \<in> set U" and r: "r = ca_row nc issuer (last S) it"
    by (auto simp: rows_def S_def)
  have ne: "U \<noteq> []" using len by auto
  have Sset: "set S = set U" by (simp add: S_def)
  have Sne: "S \<noteq> []" using ne Sset by (metis set_empty)
  have nw: "last S \<in> set U" using Sne Sset last_in_set by blast
  let ?t = "ca_row nc issuer (last S) (last S)"
  have tin: "?t \<in> set rows" using nw Sset by (simp add: rows_def)
  have pk: "\<And>x. x \<in> set U \<Longrightarrow> parsed_ok x" using sub ok by blast
  have ser: "serial it \<le> serial (last S)"
    using sorted_last_max [of serial S it] it Sset by (simp add: S_def)
  have base: "take 9 (isin (last S)) = take 9 (isin it)"
    using b9 it nw pk unfolding parsed_ok_def by metis
  have hd_in: "hd U \<in> set U" using ne by simp
  have "take 9 (isin it) = take 9 (isin (hd U))"
    using b9 it hd_in pk unfolding parsed_ok_def by metis
  then have "take 2 (drop 7 (isin it)) = take 2 (drop 7 (isin (hd U)))"
    by (metis take_drop_79)
  then have equity: "take 2 (drop 7 (isin it)) = ''01''"
    using eq pk [OF hd_in] unfolding parsed_ok_def by simp
  obtain other where other: "other \<in> set U" "isin other \<noteq> isin (last S)"
    using distinct_other [OF dist len] by blast
  let ?m = "ca_row nc issuer (last S) other"
  have min: "?m \<in> set rows" using other Sset by (simp add: rows_def)
  have t_ok: "category ?t = ''CORPORATE_ACTION'' \<and> is_target ?t \<and> action ?t = ''TARGET'' \<and>
          isin_original ?t = isin_mapped r \<and> isin_mapped ?t = isin_mapped r \<and>
          name_original ?t = name_mapped r \<and> name_mapped ?t = name_mapped r \<and>
          row_name_cut ?t = row_name_cut r \<and>
          take 9 (isin_original ?t) = take 9 (isin_original r) \<and>
          row_serial r \<le> row_serial ?t"
    using ser base pk [OF it] pk [OF nw]
    by (simp add: r ca_row_def row_serial_def parsed_ok_def)
  have m_ok: "category ?m = ''CORPORATE_ACTION'' \<and> action ?m = ''MAP'' \<and>
          isin_mapped ?m = isin_mapped r"
    using other(2) by (simp add: r ca_row_def)
  have self: "(is_target r \<longleftrightarrow> isin_original r = isin_mapped r) \<and>
      (is_target r \<longleftrightarrow> action r = ''TARGET'') \<and>
      (\<not> is_target r \<longleftrightarrow> action r = ''MAP'') \<and>
      take 2 (drop 7 (isin_original r)) = ''01''"
    using equity by (simp add: r ca_row_def)
  have "ca_ok rows r" unfolding ca_ok_def using tin t_ok min m_ok self by blast
  moreover have "isin_original r \<in> isin ` set data" using it sub by (auto simp: r ca_row_def)
  moreover have "category r = ''CORPORATE_ACTION''" by (simp add: r ca_row_def)
  ultimately show "row_ok data rows r" by (simp add: row_ok_def)
qed

lemma foldl_inv:
  assumes "I st" "\<And>s g. I s \<Longrightarrow> g \<in> set gs \<Longrightarrow> I (step s g)"
  shows "I (foldl step st gs)"
  using assms by (induction gs arbitrary: st) auto

lemma distinct_map_sort_key: "distinct (map f (sort_key k xs)) = distinct (map f xs)"
  by (simp add: distinct_map)

lemma process_base9_inv:
  assumes inv: "engine_inv data st" and sub: "set (snd g) \<subseteq> set data"
    and ok: "\<forall>it\<in>set data. parsed_ok it" and dist: "distinct (map isin (snd g))"
    and b9: "\<forall>it\<in>set (snd g). base_9 it = fst g"
  shows "engine_inv data (process_base9 nc issuer st g)"
proof -
  define U where "U = filter (\<lambda>i. isin i \<notin> processed_isins st) (snd g)"
  define S where "S = sort_key serial U"
  define rows where "rows = map (ca_row nc issuer (last S)) S"
  show ?thesis
  proof (cases "2 \<le> length U \<and> security_type (hd U) = ''01''")
    case False
    then have "process_base9 nc issuer st g = st"
      unfolding process_base9_def Let_def U_def by (simp only: if_False)
    then show ?thesis using inv by simp
  next
    case True
    have eq: "process_base9 nc issuer st g =
        st\<lparr>corporate_action := corporate_action st @ rows,
           validation_rows := validation_rows st @ rows,
           processed_isins := processed_isins st \<union> set (map isin S)\<rparr>"
      using True by (simp add: process_base9_def U_def S_def rows_def Let_def)
    have Usub: "set U \<subseteq> set data" using sub by (auto simp: U_def)
    have Udist: "distinct (map isin U)" using dist by (simp add: U_def distinct_map_filter)
    have Ub9: "\<forall>it\<in>set U. base_9 it = fst g" using b9 by (simp add: U_def)
    have io: "map isin_original rows = map isin S" by (simp add: rows_def ca_row_def comp_def)
    have d: "distinct (map isin_original rows)"
      unfolding io S_def using Udist by (simp add: distinct_map_sort_key)
    have fresh: "isin_original ` set rows \<inter> processed_isins st = {}"
    proof -
      have "set (map isin_original rows) = isin ` set U" unfolding io by (simp add: S_def)
      then show ?thesis by (auto simp: U_def)
    qed
    have cat: "\<forall>r\<in>set rows. category r = ''CORPORATE_ACTION''"
      by (simp add: rows_def ca_row_def)
    have P: "isin_original ` set rows \<subseteq> set (map isin S)"
      using io by (metis set_map subset_refl)
    have p: "part_inv (process_base9 nc issuer st g)"
      unfolding eq using inv d fresh cat P by (intro part_inv_ca) (simp_all add: engine_inv_def)
    have blk: "\<forall>r\<in>set rows. row_ok data rows r"
      using True by (intro ca_block_ok [OF Usub ok Udist _ Ub9 _ S_def rows_def]) simp_all
    have "\<forall>r\<in>set (validation_rows st). row_ok data (validation_rows st) r"
      using inv by (simp add: engine_inv_def rows_inv_def)
    from rows_inv_append [OF this blk]
    have "rows_inv data (process_base9 nc issuer st g)"
      unfolding eq by (simp add: rows_inv_def)
    then show ?thesis using p by (simp add: engine_inv_def)
  qed
qed

lemma agg_rows_ok:
  assumes "set its \<subseteq> set data" "kind = ''CD'' \<or> kind = ''CP''"
  shows "\<forall>r\<in>set (map (agg_row kind nc issuer (generate_synthetic_isin issuer kind 1) nm) its).
           row_ok data (map (agg_row kind nc issuer (generate_synthetic_isin issuer kind 1) nm) its) r"
  using assms
  by (auto simp: row_ok_def agg_row_def generate_synthetic_isin_def SYNTHETIC_PREFIX_def
      startswith_def)

lemma process_cds_inv:
  assumes inv: "engine_inv data st" and sub: "set its \<subseteq> set data"
    and dist: "distinct (map isin its)"
  shows "engine_inv data (process_cds nc issuer its st)"
proof -
  define cds where "cds = filter (\<lambda>i. sec_category i = ''CD'' \<and> isin i \<notin> processed_isins st) its"
  define rows where "rows = map (agg_row ''CD'' nc issuer (generate_synthetic_isin issuer ''CD'' 1)
                             (generate_aggregated_name cds ''CD'')) cds"
  show ?thesis
  proof (cases "2 \<le> length cds")
    case False
    then show ?thesis using inv by (simp add: process_cds_def cds_def Let_def)
  next
    case True
    have eq: "process_cds nc issuer its st =
        st\<lparr>cd_aggregate := cd_aggregate st @ rows,
           validation_rows := validation_rows st @ rows,
           processed_isins := processed_isins st \<union> set (map isin cds)\<rparr>"
      using True by (simp add: process_cds_def cds_def rows_def Let_def)
    have io: "map isin_original rows = map isin cds" by (simp add: rows_def agg_row_def comp_def)
    have d: "distinct (map isin_original rows)"
      unfolding io using dist by (simp add: cds_def distinct_map_filter)
    have fresh: "isin_original ` set rows \<inter> processed_isins st = {}"
    proof -
      have "set (map isin_original rows) = isin ` set cds" unfolding io by simp
      then show ?thesis by (auto simp: cds_def)
    qed
    have cat: "\<forall>r\<in>set rows. category r = ''CD_AGGREGATE''"
      by (simp add: rows_def agg_row_def)
    have P: "isin_original ` set rows \<subseteq> set (map isin cds)"
      using io by (metis set_map subset_refl)
    have p: "part_inv (process_cds nc issuer its st)"
      unfolding eq using inv d fresh cat P by (intro part_inv_cd) (simp_all add: engine_inv_def)
    have csub: "set cds \<subseteq> set data" using sub by (auto simp: cds_def)
    have blk: "\<forall>r\<in>set rows. row_ok data rows r"
      unfolding rows_def by (intro agg_rows_ok [OF csub]) simp
    have "\<forall>r\<in>set (validation_rows st). row_ok data (validation_rows st) r"
      using inv by (simp add: engine_inv_def rows_inv_def)
    from rows_inv_append [OF this blk]
    have "rows_inv data (process_cds nc issuer its st)"
      unfolding eq by (simp add: rows_inv_def)
    then show ?thesis using p by (simp add: engine_inv_def)
  qed
qed

lemma process_cps_inv:
  assumes inv: "engine_inv data st" and sub: "set its \<subseteq> set data"
    and dist: "distinct (map isin its)"
  shows "engine_inv data (process_cps nc issuer its st)"
proof -
  define cps where "cps = filter (\<lambda>i. sec_category i = ''CP'' \<and> isin i \<notin> processed_isins st) its"
  define rows where "rows = map (agg_row ''CP'' nc issuer (generate_synthetic_isin issuer ''CP'' 1)
                             (generate_aggregated_name cps ''CP'')) cps"
  show ?thesis
  proof (cases "2 \<le> length cps")
    case False
    then show ?thesis using inv by (simp add: process_cps_def cps_def Let_def)
  next
    case True
    have eq: "process_cps nc issuer its st =
        st\<lparr>cp_aggregate := cp_aggregate st @ rows,
           validation_rows := validation_rows st @ rows,
           processed_isins := processed_isins st \<union> set (map isin cps)\<rparr>"
      using True by (simp add: process_cps_def cps_def rows_def Let_def)
    have io: "map isin_original rows = map isin cps" by (simp add: rows_def agg_row_def comp_def)
    have d: "distinct (map isin_original rows)"
      unfolding io using dist by (simp add: cps_def distinct_map_filter)
    have fresh: "isin_original ` set rows \<inter> processed_isins st = {}"
    proof -
      have "set (map isin_original rows) = isin ` set cps" unfolding io by simp
      then show ?thesis by (auto simp: cps_def)
    qed
    have cat: "\<forall>r\<in>set rows. category r = ''CP_AGGREGATE''"
      by (simp add: rows_def agg_row_def)
    have P: "isin_original ` set rows \<subseteq> set (map isin cps)"
      using io by (metis set_map subset_refl)
    have p: "part_inv (process_cps nc issuer its st)"
      unfolding eq using inv d fresh cat P by (intro part_inv_cp) (simp_all add: engine_inv_def)
    have csub: "set cps \<subseteq> set data" using sub by (auto simp: cps_def)
    have blk: "\<forall>r\<in>set rows. row_ok data rows r"
      unfolding rows_def by (intro agg_rows_ok [OF csub]) simp
    have "\<forall>r\<in>set (validation_rows st). row_ok data (validation_rows st) r"
      using inv by (simp add: engine_inv_def rows_inv_def)
    from rows_inv_append [OF this blk]
    have "rows_inv data (process_cps nc issuer its st)"
      unfolding eq by (simp add: rows_inv_def)
    then show ?thesis using p by (simp add: engine_inv_def)
  qed
qed

lemma no_action_step_inv:
  assumes inv: "engine_inv data st" and mem: "it \<in> set data"
  shows "engine_inv data (no_action_step nc issuer st it)"
proof (cases "isin it \<notin> processed_isins st")
  case False
  then show ?thesis using inv by (simp add: no_action_step_def)
next
  case True
  let ?r = "no_action_row nc issuer it"
  have eq: "no_action_step nc issuer st it =
      st\<lparr>no_action := no_action st @ [?r], validation_rows := validation_rows st @ [?r],
         processed_isins := insert (isin_original ?r) (processed_isins st)\<rparr>"
    using True by (simp add: no_action_step_def no_action_row_def)
  have p: "part_inv (no_action_step nc issuer st it)"
    unfolding eq using inv True
    by (intro part_inv_na) (simp_all add: engine_inv_def no_action_row_def)
  have blk: "\<forall>r\<in>set [?r]. row_ok data [?r] r"
    using mem by (simp add: row_ok_def no_action_row_def)
  have "\<forall>r\<in>set (validation_rows st). row_ok data (validation_rows st) r"
    using inv by (simp add: engine_inv_def rows_inv_def)
  from rows_inv_append [OF this blk]
  have "rows_inv data (no_action_step nc issuer st it)"
    unfolding eq by (simp add: rows_inv_def)
  then show ?thesis using p by (simp add: engine_inv_def)
qed

lemma process_issuer_inv:
  assumes inv: "engine_inv data st" and sub: "set (snd g) \<subseteq> set data"
    and ok: "\<forall>it\<in>set data. parsed_ok it" and dist: "distinct (map isin (snd g))"
  shows "engine_inv data (process_issuer nc st g)"
proof (cases "length (remdups (map isin (snd g))) < 2")
  case True
  then show ?thesis using inv by (simp add: process_issuer_def)
next
  case False
  have 1: "engine_inv data (foldl (process_base9 nc (fst g)) st (group_by base_9 (snd g)))"
  proof (rule foldl_inv [where I = "engine_inv data", OF inv])
    fix s g' assume s: "engine_inv data s" and g': "g' \<in> set (group_by base_9 (snd g))"
    have a: "set (snd g') \<subseteq> set data" using group_by_subset [OF g'] sub by blast
    have b: "distinct (map isin (snd g'))" using group_by_distinct [OF g' dist] .
    have c: "\<forall>it\<in>set (snd g'). base_9 it = fst g'" using group_by_key [OF g'] by blast
    show "engine_inv data (process_base9 nc (fst g) s g')"
      using process_base9_inv [OF s a ok b c] .
  qed
  have 2: "engine_inv data (process_cds nc (fst g) (snd g)
             (foldl (process_base9 nc (fst g)) st (group_by base_9 (snd g))))"
    using process_cds_inv [OF 1 sub dist] .
  show ?thesis using False process_cps_inv [OF 2 sub dist] by (simp add: process_issuer_def)
qed

lemma no_action_issuer_inv:
  assumes inv: "engine_inv data st" and sub: "set (snd g) \<subseteq> set data"
  shows "engine_inv data (no_action_issuer nc st g)"
  unfolding no_action_issuer_def
proof (rule foldl_inv [where I = "engine_inv data", OF inv])
  fix s it assume "engine_inv data s" "it \<in> set (snd g)"
  then show "engine_inv data (no_action_step nc (fst g) s it)"
    using no_action_step_inv sub by blast
qed

lemma process_name_group_inv:
  assumes inv: "engine_inv data st" and sub: "set (snd g) \<subseteq> set data"
    and ok: "\<forall>it\<in>set data. parsed_ok it" and dist: "distinct (map isin (snd g))"
  shows "engine_inv data (process_name_group st g)"
proof -
  let ?by = "group_by issuer_code (snd g)"
  have 1: "engine_inv data (foldl (process_issuer (fst g)) st ?by)"
  proof (rule foldl_inv [where I = "engine_inv data", OF inv])
    fix s g' assume s: "engine_inv data s" and g': "g' \<in> set ?by"
    have a: "set (snd g') \<subseteq> set data" using group_by_subset [OF g'] sub by blast
    have b: "distinct (map isin (snd g'))" using group_by_distinct [OF g' dist] .
    show "engine_inv data (process_issuer (fst g) s g')"
      using process_issuer_inv [OF s a ok b] .
  qed
  have 2: "engine_inv data (foldl (no_action_issuer (fst g)) (foldl (process_issuer (fst g)) st ?by) ?by)"
  proof (rule foldl_inv [where I = "engine_inv data", OF 1])
    fix s g' assume s: "engine_inv data s" and g': "g' \<in> set ?by"
    have a: "set (snd g') \<subseteq> set data" using group_by_subset [OF g'] sub by blast
    show "engine_inv data (no_action_issuer (fst g) s g')"
      using no_action_issuer_inv [OF s a] .
  qed
  show ?thesis using inv 1 2 by (simp add: process_name_group_def Let_def)
qed

lemma goi_pass_inv:
  assumes dist: "distinct (map isin data)"
  shows "engine_inv data (goi_pass data)"
proof -
  define T where "T = filter (\<lambda>it. detect_goi_security (name it) = Some ''TBILL'') data"
  define G where "G = filter (\<lambda>it. detect_goi_security (name it) = Some ''GSEC'') data"
  have st: "goi_pass data =
      \<lparr>corporate_action = [], cd_aggregate = [], cp_aggregate = [],
       tbill_aggregate = map tbill_row T, gsec_aggregate = map gsec_row G, no_action = [],
       validation_rows = map tbill_row T @ map gsec_row G,
       processed_isins = set (map isin T) \<union> set (map isin G)\<rparr>"
    by (simp add: goi_pass_def T_def G_def Let_def)
  have ct: "\<forall>r\<in>set (map tbill_row T). category r = ''TBILL_AGGREGATE''"
    by (simp add: tbill_row_def)
  have cg: "\<forall>r\<in>set (map gsec_row G). category r = ''GSEC_AGGREGATE''"
    by (simp add: gsec_row_def)
  have l: "lists_inv (goi_pass data)"
    unfolding st
    by (simp add: lists_inv_def by_category_append by_category_same [OF ct]
        by_category_same [OF cg] by_category_other [OF ct] by_category_other [OF cg])
  have io: "map isin_original (map tbill_row T @ map gsec_row G) = map isin T @ map isin G"
    by (simp add: tbill_row_def gsec_row_def comp_def)
  have inj: "inj_on isin (set data)" using dist by (simp add: distinct_map)
  have dj: "isin ` set T \<inter> isin ` set G = {}"
  proof (rule ccontr)
    assume "isin ` set T \<inter> isin ` set G \<noteq> {}"
    then obtain a b where ab: "a \<in> set T" "b \<in> set G" "isin a = isin b" by auto
    then have "a \<in> set data" "b \<in> set data" by (auto simp: T_def G_def)
    then have "a = b" using inj ab(3) by (auto dest: inj_onD)
    then show False using ab(1,2) by (auto simp: T_def G_def)
  qed
  have dT: "distinct (map isin T)" and dG: "distinct (map isin G)"
    using dist by (simp_all add: T_def G_def distinct_map_filter)
  have "distinct (map isin T @ map isin G)" using dT dG dj by simp
  then have "distinct (map isin_original (map tbill_row T @ map gsec_row G))"
    by (simp only: io)
  then have d: "distinct (map isin_original (validation_rows (goi_pass data)))"
    unfolding st by simp
  have q: "isin_original ` set (validation_rows (goi_pass data)) \<subseteq> processed_isins (goi_pass data)"
  proof -
    have "isin_original ` set (validation_rows (goi_pass data)) =
          set (map isin_original (map tbill_row T @ map gsec_row G))"
      unfolding st by (simp only: set_map Results.simps)
    then show ?thesis unfolding io st by simp
  qed
  have r: "rows_inv data (goi_pass data)"
    unfolding st rows_inv_def
    by (auto simp: row_ok_def tbill_row_def gsec_row_def startswith_def T_def G_def)
  show ?thesis using d q l r by (simp add: engine_inv_def part_inv_def)
qed

lemma run_engine_inv:
  assumes dist: "distinct (map isin data)" and ok: "\<forall>it\<in>set data. parsed_ok it"
  shows "engine_inv data (run_engine data)"
  unfolding run_engine_def
proof (rule foldl_inv [where I = "engine_inv data", OF goi_pass_inv [OF dist]])
  fix s g assume s: "engine_inv data s"
    and "g \<in> set (sort_key fst (name_groups_of data (goi_pass data)))"
  then have g: "g \<in> set (group_by name_cut
      (filter (\<lambda>it. name_cut it \<noteq> [] \<and> isin it \<notin> processed_isins (goi_pass data)) data))"
    by (simp add: name_groups_of_def)
  have a: "set (snd g) \<subseteq> set data" using group_by_subset [OF g] by auto
  have "distinct (map isin
      (filter (\<lambda>it. name_cut it \<noteq> [] \<and> isin it \<notin> processed_isins (goi_pass data)) data))"
    using dist by (simp add: distinct_map_filter)
  from group_by_distinct [OF g this] have b: "distinct (map isin (snd g))" .
  show "engine_inv data (process_name_group s g)"
    using process_name_group_inv [OF s a ok b] .
qed

lemma load_item_isin: "load_item f = Some it \<Longrightarrow> isin it = f_isin_assigned f"
  by (auto simp: load_item_def parse_isin_def parsed.extend_def Let_def split: if_splits)

lemma load_item_parsed_ok: "load_item f = Some it \<Longrightarrow> parsed_ok it"
  by (auto simp: load_item_def parse_isin_def parsed.extend_def parsed_ok_def Let_def
      split: if_splits)

lemma load_holdings_data_ok: "\<forall>it\<in>set (load_holdings_data fs). parsed_ok it"
  by (auto simp: load_holdings_data_def List.map_filter_def load_item_parsed_ok)

lemma load_holdings_data_isin:
  "it \<in> set (load_holdings_data fs) \<Longrightarrow> \<exists>f\<in>set fs. isin it = f_isin_assigned f"
  by (auto simp: load_holdings_data_def List.map_filter_def load_item_isin)

lemma load_holdings_data_distinct:
  "distinct (map f_isin_assigned fs) \<Longrightarrow> distinct (map isin (load_holdings_data fs))"
proof (induction fs)
  case Nil
  then show ?case by (simp add: load_holdings_data_def List.map_filter_simps)
next
  case (Cons f fs)
  show ?case
  proof (cases "load_item f")
    case None
    then show ?thesis using Cons by (simp add: load_holdings_data_def List.map_filter_simps)
  next
    case (Some it)
    have "isin it \<notin> isin ` set (load_holdings_data fs)"
    proof
      assume "isin it \<in> isin ` set (load_holdings_data fs)"
      then obtain it' where "it' \<in> set (load_holdings_data fs)" "isin it' = isin it" by auto
      then obtain f' where f': "f' \<in> set fs" "f_isin_assigned f' = f_isin_assigned f"
        using load_holdings_data_isin load_item_isin [OF Some] by metis
      from Cons.prems have "f_isin_assigned f \<notin> f_isin_assigned ` set fs" by simp
      then show False using f' by (metis imageI)
    qed
    then show ?thesis using Cons Some
      by (simp add: load_holdings_data_def List.map_filter_simps)
  qed
qed

lemma engine_inv_loaded:
  "distinct (map f_isin_assigned fs) \<Longrightarrow>
   engine_inv (load_holdings_data fs) (run_engine (load_holdings_data fs))"
  using run_engine_inv [OF load_holdings_data_distinct load_holdings_data_ok] .

lemma distinct_filters:
  assumes "distinct (map f V)" "set L \<subseteq> set V" "distinct (map f L)" "\<forall>x\<in>set L. \<not> P x"
  shows "distinct (map f (filter P V @ L))"
proof -
  have inj: "inj_on f (set V)" using assms(1) by (simp add: distinct_map)
  have "f ` set (filter P V) \<inter> f ` set L = {}"
  proof (rule ccontr)
    assume "f ` set (filter P V) \<inter> f ` set L \<noteq> {}"
    then obtain a b where ab: "a \<in> set V" "P a" "b \<in> set L" "f a = f b" by auto
    then have "a = b" using inj assms(2) by (auto dest: inj_onD)
    then show False using ab assms(4) by auto
  qed
  then show ?thesis using assms(1,3) by (simp add: distinct_map_filter)
qed

lemma by_category_sub: "set (by_category tag V) \<subseteq> set V"
  by (auto simp: by_category_def)

lemma by_category_tag: "x \<in> set (by_category tag V) \<Longrightarrow> category x = tag"
  by (simp add: by_category_def)

lemma distinct_category:
  assumes "distinct (map f V)" "set L \<subseteq> set V" "distinct (map f L)"
    "\<forall>x\<in>set L. category x \<noteq> tag"
  shows "distinct (map f (by_category tag V @ L))"
  unfolding by_category_def using assms(4) by (intro distinct_filters [OF assms(1,2,3)]) simp

lemma distinct_all_rows:
  assumes "distinct (map isin_original V)"
  shows "distinct (map isin_original
     (by_category ''CORPORATE_ACTION'' V @ by_category ''CD_AGGREGATE'' V @
      by_category ''CP_AGGREGATE'' V @ by_category ''TBILL_AGGREGATE'' V @
      by_category ''GSEC_AGGREGATE'' V @ by_category ''NO_ACTION'' V))"
proof -
  let ?f = isin_original
  let ?L5 = "by_category ''NO_ACTION'' V"
  let ?L4 = "by_category ''GSEC_AGGREGATE'' V @ ?L5"
  let ?L3 = "by_category ''TBILL_AGGREGATE'' V @ ?L4"
  let ?L2 = "by_category ''CP_AGGREGATE'' V @ ?L3"
  let ?L1 = "by_category ''CD_AGGREGATE'' V @ ?L2"
  have d5: "distinct (map ?f ?L5)" using assms by (simp add: by_category_def distinct_map_filter)
  have s5: "set ?L5 \<subseteq> set V" by (rule by_category_sub)
  have c5: "\<forall>x\<in>set ?L5. category x \<noteq> ''GSEC_AGGREGATE''" by (auto simp: by_category_def)
  have d4: "distinct (map ?f ?L4)" by (rule distinct_category [OF assms s5 d5 c5])
  have s4: "set ?L4 \<subseteq> set V" by (auto simp: by_category_def)
  have c4: "\<forall>x\<in>set ?L4. category x \<noteq> ''TBILL_AGGREGATE''" by (auto simp: by_category_def)
  have d3: "distinct (map ?f ?L3)" by (rule distinct_category [OF assms s4 d4 c4])
  have s3: "set ?L3 \<subseteq> set V" by (auto simp: by_category_def)
  have c3: "\<forall>x\<in>set ?L3. category x \<noteq> ''CP_AGGREGATE''" by (auto simp: by_category_def)
  have d2: "distinct (map ?f ?L2)" by (rule distinct_category [OF assms s3 d3 c3])
  have s2: "set ?L2 \<subseteq> set V" by (auto simp: by_category_def)
  have c2: "\<forall>x\<in>set ?L2. category x \<noteq> ''CD_AGGREGATE''" by (auto simp: by_category_def)
  have d1: "distinct (map ?f ?L1)" by (rule distinct_category [OF assms s2 d2 c2])
  have s1: "set ?L1 \<subseteq> set V" by (auto simp: by_category_def)
  have c1: "\<forall>x\<in>set ?L1. category x \<noteq> ''CORPORATE_ACTION''" by (auto simp: by_category_def)
  show ?thesis by (rule distinct_category [OF assms s1 d1 c1])
qed

lemma truncate_fields:
  "corporate_action (Results.truncate st) = corporate_action st"
  "cd_aggregate (Results.truncate st) = cd_aggregate st"
  "cp_aggregate (Results.truncate st) = cp_aggregate st"
  "tbill_aggregate (Results.truncate st) = tbill_aggregate st"
  "gsec_aggregate (Results.truncate st) = gsec_aggregate st"
  "no_action (Results.truncate st) = no_action st"
  "validation_rows (Results.truncate st) = validation_rows st"
  by (simp_all add: Results.truncate_def)

lemma lists_inv_tags: "lists_inv res \<Longrightarrow> tags_ok res"
  unfolding lists_inv_def tags_ok_def by (auto simp: by_category_def)

text \<open>
  Claim C1. The ledger query returns one row for each identifier (\<open>GROUP BY
  isin_assigned\<close>). On such rows, the identifiers of the rows of the six categories are
  pairwise different, each category list holds only rows of its own category, and so no
  identifier has rows in two categories.
\<close>

theorem categories_partition:
  assumes "distinct (map f_isin_assigned fetched_rows)"
  shows "distinct (map isin_original (all_rows (detect_and_categorize (load_holdings_data fetched_rows)))) \<and>
         tags_ok (detect_and_categorize (load_holdings_data fetched_rows)) \<and>
         (\<forall>r1\<in>set (all_rows (detect_and_categorize (load_holdings_data fetched_rows))).
          \<forall>r2\<in>set (all_rows (detect_and_categorize (load_holdings_data fetched_rows))).
            isin_original r1 = isin_original r2 \<longrightarrow> category r1 = category r2)"
proof -
  let ?st = "run_engine (load_holdings_data fetched_rows)"
  let ?res = "detect_and_categorize (load_holdings_data fetched_rows)"
  have inv: "part_inv ?st" using engine_inv_loaded [OF assms] by (simp add: engine_inv_def)
  then have d: "distinct (map isin_original (validation_rows ?st))" and l: "lists_inv ?st"
    by (simp_all add: part_inv_def)
  have a: "all_rows ?res = all_rows ?st"
    by (simp add: all_rows_def detect_and_categorize_def truncate_fields)
  have "distinct (map isin_original (all_rows ?st))"
    using distinct_all_rows [OF d] l by (simp add: all_rows_def lists_inv_def)
  then have 1: "distinct (map isin_original (all_rows ?res))" using a by simp
  have 2: "tags_ok ?res"
    using lists_inv_tags [OF l] by (simp add: tags_ok_def detect_and_categorize_def truncate_fields)
  have 3: "\<forall>r1\<in>set (all_rows ?res). \<forall>r2\<in>set (all_rows ?res).
            isin_original r1 = isin_original r2 \<longrightarrow> category r1 = category r2"
  proof (intro ballI impI)
    fix r1 r2 assume "r1 \<in> set (all_rows ?res)" "r2 \<in> set (all_rows ?res)"
      "isin_original r1 = isin_original r2"
    moreover have "inj_on isin_original (set (all_rows ?res))" using 1 by (simp add: distinct_map)
    ultimately have "r1 = r2" by (auto dest: inj_onD)
    then show "category r1 = category r2" by simp
  qed
  show ?thesis using 1 2 3 by blast
qed

lemma serial_number_mono:
  assumes "two_digits a" "two_digits b" "a \<le> b"
  shows "serial_number a \<le> serial_number b"
proof -
  obtain a0 a1 where a: "a = [a0, a1]"
    using assms(1) by (auto simp: two_digits_def length_Suc_conv numeral_2_eq_2)
  obtain b0 b1 where b: "b = [b0, b1]"
    using assms(2) by (auto simp: two_digits_def length_Suc_conv numeral_2_eq_2)
  have da: "48 \<le> (of_char a0 :: nat)" "(of_char a0 :: nat) \<le> 57"
    "48 \<le> (of_char a1 :: nat)" "(of_char a1 :: nat) \<le> 57"
    using assms(1) by (auto simp: a two_digits_def is_digit_def Let_def)
  have db: "48 \<le> (of_char b0 :: nat)" "(of_char b0 :: nat) \<le> 57"
    "48 \<le> (of_char b1 :: nat)" "(of_char b1 :: nat) \<le> 57"
    using assms(2) by (auto simp: b two_digits_def is_digit_def Let_def)
  have "a0 < b0 \<or> (a0 = b0 \<and> a1 \<le> b1)"
    using assms(3) by (auto simp: a b)
  then have "(of_char a0 :: nat) < of_char b0 \<or> (a0 = b0 \<and> (of_char a1 :: nat) \<le> of_char b1)"
    by (auto simp: less_char_def less_eq_char_def)
  then show ?thesis using da db by (auto simp: serial_number_def a b)
qed

lemma in_ca_list:
  assumes "lists_inv st" "r \<in> set (corporate_action st)"
  shows "r \<in> set (validation_rows st) \<and> category r = ''CORPORATE_ACTION''"
  using assms by (auto simp: lists_inv_def by_category_def)

lemma ca_list_mem:
  assumes "lists_inv st" "t \<in> set (validation_rows st)" "category t = ''CORPORATE_ACTION''"
  shows "t \<in> set (corporate_action st)"
  using assms by (auto simp: lists_inv_def by_category_def)

lemma step_ok_refl: "step_ok S st st"
  by (simp add: step_ok_def)

lemma step_ok_mono: "step_ok S st st' \<Longrightarrow> S \<subseteq> T \<Longrightarrow> step_ok T st st'"
  unfolding step_ok_def by blast

lemma step_ok_trans:
  assumes "step_ok S st st'" "step_ok S st' st''"
  shows "step_ok S st st''"
proof -
  from assms(1) obtain rows1 where 1: "corporate_action st' = corporate_action st @ rows1"
    "\<forall>r\<in>set rows1. isin_original r \<in> S \<and> isin_original r \<notin> processed_isins st"
    "processed_isins st \<subseteq> processed_isins st'" "processed_isins st' \<subseteq> processed_isins st \<union> S"
    unfolding step_ok_def by blast
  from assms(2) obtain rows2 where 2: "corporate_action st'' = corporate_action st' @ rows2"
    "\<forall>r\<in>set rows2. isin_original r \<in> S \<and> isin_original r \<notin> processed_isins st'"
    "processed_isins st' \<subseteq> processed_isins st''" "processed_isins st'' \<subseteq> processed_isins st' \<union> S"
    unfolding step_ok_def by blast
  have a: "corporate_action st'' = corporate_action st @ (rows1 @ rows2)" using 1(1) 2(1) by simp
  have b: "\<forall>r\<in>set (rows1 @ rows2). isin_original r \<in> S \<and> isin_original r \<notin> processed_isins st"
    using 1(2,3) 2(2) by auto
  have c: "processed_isins st \<subseteq> processed_isins st''" using 1(3) 2(3) by blast
  have d: "processed_isins st'' \<subseteq> processed_isins st \<union> S" using 1(4) 2(4) by blast
  show ?thesis unfolding step_ok_def using a b c d by blast
qed

lemma foldl_step_ok:
  assumes "\<And>h s. h \<in> set gs \<Longrightarrow> step_ok S s (f s h)"
  shows "step_ok S st (foldl f st gs)"
  using assms
proof (induction gs arbitrary: st)
  case Nil
  then show ?case by (simp add: step_ok_refl)
next
  case (Cons g gs)
  have 1: "step_ok S st (f st g)" using Cons.prems by simp
  have 2: "step_ok S (f st g) (foldl f (f st g) gs)" using Cons by simp
  show ?case using step_ok_trans [OF 1 2] by simp
qed

lemma clear_of_step:
  assumes "clear_of S st" "step_ok T st st'" "T \<inter> S = {}"
  shows "clear_of S st'"
proof -
  from assms(2) obtain rows where 1: "corporate_action st' = corporate_action st @ rows"
    "\<forall>r\<in>set rows. isin_original r \<in> T \<and> isin_original r \<notin> processed_isins st"
    "processed_isins st \<subseteq> processed_isins st'" "processed_isins st' \<subseteq> processed_isins st \<union> T"
    unfolding step_ok_def by blast
  have a: "S \<inter> processed_isins st' = {}" using assms(1,3) 1(4) unfolding clear_of_def by blast
  have b: "\<forall>r\<in>set (corporate_action st'). isin_original r \<notin> S"
    using assms(1,3) 1(1,2) unfolding clear_of_def by auto
  show ?thesis unfolding clear_of_def using a b by blast
qed

lemma has_block_step:
  assumes "has_block S B st" "step_ok T st st'"
  shows "has_block S B st'"
proof -
  from assms(2) obtain rows where 1: "corporate_action st' = corporate_action st @ rows"
    "\<forall>r\<in>set rows. isin_original r \<in> T \<and> isin_original r \<notin> processed_isins st"
    "processed_isins st \<subseteq> processed_isins st'"
    unfolding step_ok_def by blast
  have s: "S \<subseteq> processed_isins st" using assms(1) by (simp add: has_block_def)
  have "\<forall>r\<in>set rows. isin_original r \<notin> S" using 1(2) s by blast
  then have "filter (\<lambda>r. isin_original r \<in> S) rows = []" by (simp add: filter_empty_conv)
  then have "filter (\<lambda>r. isin_original r \<in> S) (corporate_action st') = B"
    using assms(1) 1(1) by (simp add: has_block_def)
  then show ?thesis using s 1(3) unfolding has_block_def by blast
qed

lemma foldl_block:
  assumes "distinct gs" "g \<in> set gs"
    and other: "\<And>h s. h \<in> set gs \<Longrightarrow> h \<noteq> g \<Longrightarrow> clear_of S s \<Longrightarrow> clear_of S (f s h)"
    and keep: "\<And>h s. h \<in> set gs \<Longrightarrow> has_block S B s \<Longrightarrow> has_block S B (f s h)"
    and hit: "\<And>s. clear_of S s \<Longrightarrow> has_block S B (f s g)"
    and start: "clear_of S st"
  shows "has_block S B (foldl f st gs)"
proof -
  from assms(2) obtain pre post where gs: "gs = pre @ g # post" by (auto simp: in_set_conv_decomp)
  have npre: "g \<notin> set pre" using assms(1) gs by auto
  have 1: "clear_of S (foldl f st pre)"
  proof (rule foldl_inv [where I = "clear_of S", OF start])
    fix s h assume "clear_of S s" "h \<in> set pre"
    then show "clear_of S (f s h)" using other [of h s] npre gs by auto
  qed
  have 2: "has_block S B (f (foldl f st pre) g)" using hit [OF 1] .
  have 3: "has_block S B (foldl f (f (foldl f st pre) g) post)"
  proof (rule foldl_inv [where I = "has_block S B", OF 2])
    fix s h assume "has_block S B s" "h \<in> set post"
    then show "has_block S B (f s h)" using keep [of h s] gs by auto
  qed
  show ?thesis using 3 by (simp add: gs)
qed

lemma process_base9_step: "step_ok (isin ` set (snd g)) st (process_base9 nc ic st g)"
proof -
  define U where "U = filter (\<lambda>i. isin i \<notin> processed_isins st) (snd g)"
  define S where "S = sort_key serial U"
  define rows where "rows = map (ca_row nc ic (last S)) S"
  show ?thesis
  proof (cases "2 \<le> length U \<and> security_type (hd U) = ''01''")
    case False
    then have "process_base9 nc ic st g = st"
      unfolding process_base9_def Let_def U_def by (simp only: if_False)
    then show ?thesis by (simp only: step_ok_refl)
  next
    case True
    have e: "process_base9 nc ic st g =
        st\<lparr>corporate_action := corporate_action st @ rows,
           validation_rows := validation_rows st @ rows,
           processed_isins := processed_isins st \<union> set (map isin S)\<rparr>"
      using True by (simp add: process_base9_def U_def S_def rows_def Let_def)
    have io: "map isin_original rows = map isin S" by (simp add: rows_def ca_row_def comp_def)
    have sU: "set (map isin S) = isin ` set U" by (simp add: S_def)
    have im: "isin_original ` set rows = isin ` set U" using io sU by (metis set_map)
    have r: "\<forall>r\<in>set rows. isin_original r \<in> isin ` set (snd g) \<and>
        isin_original r \<notin> processed_isins st"
    proof
      fix r assume "r \<in> set rows"
      then have "isin_original r \<in> isin ` set U" using im by (metis imageI)
      then obtain x where "x \<in> set U" "isin_original r = isin x" by auto
      then show "isin_original r \<in> isin ` set (snd g) \<and> isin_original r \<notin> processed_isins st"
        by (simp add: U_def)
    qed
    have p: "processed_isins st \<union> set (map isin S) \<subseteq> processed_isins st \<union> isin ` set (snd g)"
      unfolding sU by (auto simp: U_def)
    have c: "corporate_action (process_base9 nc ic st g) = corporate_action st @ rows"
      "processed_isins (process_base9 nc ic st g) = processed_isins st \<union> set (map isin S)"
      unfolding e by simp_all
    show ?thesis unfolding step_ok_def c using r p by blast
  qed
qed

lemma process_cds_step: "step_ok (isin ` set its) st (process_cds nc ic its st)"
proof -
  define U where "U = filter (\<lambda>i. sec_category i = ''CD'' \<and> isin i \<notin> processed_isins st) its"
  show ?thesis
  proof (cases "2 \<le> length U")
    case False
    then have "process_cds nc ic its st = st" by (simp add: process_cds_def U_def Let_def)
    then show ?thesis by (simp only: step_ok_refl)
  next
    case True
    then have c: "corporate_action (process_cds nc ic its st) = corporate_action st @ []"
      "processed_isins (process_cds nc ic its st) = processed_isins st \<union> set (map isin U)"
      by (simp_all add: process_cds_def U_def Let_def)
    have p: "processed_isins st \<union> set (map isin U) \<subseteq> processed_isins st \<union> isin ` set its"
      by (auto simp: U_def)
    have r: "\<forall>r\<in>set ([] :: vrow list). isin_original r \<in> isin ` set its \<and>
        isin_original r \<notin> processed_isins st" by simp
    show ?thesis unfolding step_ok_def c using r p by blast
  qed
qed

lemma process_cps_step: "step_ok (isin ` set its) st (process_cps nc ic its st)"
proof -
  define U where "U = filter (\<lambda>i. sec_category i = ''CP'' \<and> isin i \<notin> processed_isins st) its"
  show ?thesis
  proof (cases "2 \<le> length U")
    case False
    then have "process_cps nc ic its st = st" by (simp add: process_cps_def U_def Let_def)
    then show ?thesis by (simp only: step_ok_refl)
  next
    case True
    then have c: "corporate_action (process_cps nc ic its st) = corporate_action st @ []"
      "processed_isins (process_cps nc ic its st) = processed_isins st \<union> set (map isin U)"
      by (simp_all add: process_cps_def U_def Let_def)
    have p: "processed_isins st \<union> set (map isin U) \<subseteq> processed_isins st \<union> isin ` set its"
      by (auto simp: U_def)
    have r: "\<forall>r\<in>set ([] :: vrow list). isin_original r \<in> isin ` set its \<and>
        isin_original r \<notin> processed_isins st" by simp
    show ?thesis unfolding step_ok_def c using r p by blast
  qed
qed

lemma no_action_step_step:
  assumes "it \<in> set its"
  shows "step_ok (isin ` set its) st (no_action_step nc ic st it)"
proof (cases "isin it \<notin> processed_isins st")
  case False
  then have "no_action_step nc ic st it = st" by (simp add: no_action_step_def)
  then show ?thesis by (simp only: step_ok_refl)
next
  case True
  then have c: "corporate_action (no_action_step nc ic st it) = corporate_action st @ []"
    "processed_isins (no_action_step nc ic st it) = insert (isin it) (processed_isins st)"
    by (simp_all add: no_action_step_def)
  have p: "insert (isin it) (processed_isins st) \<subseteq> processed_isins st \<union> isin ` set its"
    using assms by auto
  have r: "\<forall>r\<in>set ([] :: vrow list). isin_original r \<in> isin ` set its \<and>
      isin_original r \<notin> processed_isins st" by simp
  show ?thesis unfolding step_ok_def c using r p by blast
qed

lemma process_issuer_step: "step_ok (isin ` set (snd g)) st (process_issuer nc st g)"
proof (cases "length (remdups (map isin (snd g))) < 2")
  case True
  then have "process_issuer nc st g = st" by (simp add: process_issuer_def)
  then show ?thesis by (simp only: step_ok_refl)
next
  case False
  let ?S = "isin ` set (snd g)"
  let ?st1 = "foldl (process_base9 nc (fst g)) st (group_by base_9 (snd g))"
  have 1: "step_ok ?S st ?st1"
  proof (rule foldl_step_ok)
    fix h s assume "h \<in> set (group_by base_9 (snd g))"
    then have "set (snd h) \<subseteq> set (snd g)" by (rule group_by_subset)
    then have "isin ` set (snd h) \<subseteq> ?S" by blast
    then show "step_ok ?S s (process_base9 nc (fst g) s h)"
      by (rule step_ok_mono [OF process_base9_step])
  qed
  have 2: "step_ok ?S ?st1 (process_cds nc (fst g) (snd g) ?st1)" by (rule process_cds_step)
  have 3: "step_ok ?S (process_cds nc (fst g) (snd g) ?st1)
      (process_cps nc (fst g) (snd g) (process_cds nc (fst g) (snd g) ?st1))"
    by (rule process_cps_step)
  have e: "process_issuer nc st g =
      process_cps nc (fst g) (snd g) (process_cds nc (fst g) (snd g) ?st1)"
    using False by (simp add: process_issuer_def)
  show ?thesis unfolding e by (rule step_ok_trans [OF step_ok_trans [OF 1 2] 3])
qed

lemma no_action_issuer_step: "step_ok (isin ` set (snd g)) st (no_action_issuer nc st g)"
  unfolding no_action_issuer_def
  by (rule foldl_step_ok) (rule no_action_step_step)

lemma issuers_step:
  "step_ok (isin ` set its) st (foldl (process_issuer nc) st (group_by issuer_code its))"
proof (rule foldl_step_ok)
  fix h s assume "h \<in> set (group_by issuer_code its)"
  then have "set (snd h) \<subseteq> set its" by (rule group_by_subset)
  then have "isin ` set (snd h) \<subseteq> isin ` set its" by blast
  then show "step_ok (isin ` set its) s (process_issuer nc s h)"
    by (rule step_ok_mono [OF process_issuer_step])
qed

lemma no_action_issuers_step:
  "step_ok (isin ` set its) st (foldl (no_action_issuer nc) st (group_by issuer_code its))"
proof (rule foldl_step_ok)
  fix h s assume "h \<in> set (group_by issuer_code its)"
  then have "set (snd h) \<subseteq> set its" by (rule group_by_subset)
  then have "isin ` set (snd h) \<subseteq> isin ` set its" by blast
  then show "step_ok (isin ` set its) s (no_action_issuer nc s h)"
    by (rule step_ok_mono [OF no_action_issuer_step])
qed

lemma process_name_group_step: "step_ok (isin ` set (snd g)) st (process_name_group st g)"
proof -
  let ?S = "isin ` set (snd g)"
  let ?st1 = "foldl (process_issuer (fst g)) st (group_by issuer_code (snd g))"
  have 1: "step_ok ?S st ?st1" by (rule issuers_step)
  have 2: "step_ok ?S ?st1 (foldl (no_action_issuer (fst g)) ?st1 (group_by issuer_code (snd g)))"
    by (rule no_action_issuers_step)
  have 3: "step_ok ?S st (foldl (no_action_issuer (fst g)) ?st1 (group_by issuer_code (snd g)))"
    by (rule step_ok_trans [OF 1 2])
  show ?thesis
  proof (cases "length (snd g) < 2 \<or> length (remdups (map isin (snd g))) < 2")
    case True
    then have "process_name_group st g = st" by (auto simp: process_name_group_def)
    then show ?thesis by (simp only: step_ok_refl)
  next
    case False
    show ?thesis
    proof (cases "1 < length (group_by issuer_code (snd g))")
      case True
      then have "process_name_group st g =
          foldl (no_action_issuer (fst g)) ?st1 (group_by issuer_code (snd g))"
        using False by (simp add: process_name_group_def Let_def)
      then show ?thesis using 3 by (simp only:)
    next
      case n: False
      then have "process_name_group st g = ?st1"
        using False by (simp add: process_name_group_def Let_def)
      then show ?thesis using 1 by (simp only:)
    qed
  qed
qed

lemma group_by_mem:
  assumes "x \<in> set xs"
  shows "(f x, filter (\<lambda>y. f y = f x) xs) \<in> set (group_by f xs)"
proof -
  have "f x \<in> f ` set xs" using assms by (rule imageI)
  then have "f x \<in> set (map fst (group_by f xs))" using group_by_keys [of f xs] by simp
  then obtain e where e: "e \<in> set (group_by f xs)" "fst e = f x" by auto
  then have "snd e = filter (\<lambda>y. f y = f x) xs" using group_by_filter [of f xs] by auto
  then have "e = (f x, filter (\<lambda>y. f y = f x) xs)" using e(2) by (cases e) simp
  then show ?thesis using e(1) by simp
qed

lemma group_by_distinct_list: "distinct (group_by f xs)"
  using group_by_keys [of f xs] by (simp add: distinct_map)

lemma group_by_other:
  assumes "h \<in> set (group_by f xs)" "h \<noteq> (k, filter (\<lambda>y. f y = k) xs)"
  shows "fst h \<noteq> k"
proof
  assume "fst h = k"
  moreover have "snd h = filter (\<lambda>y. f y = fst h) xs" using group_by_filter [of f xs] assms(1) by auto
  ultimately have "h = (k, filter (\<lambda>y. f y = k) xs)" by (cases h) simp
  then show False using assms(2) by simp
qed

lemma disjoint_groups:
  assumes "distinct (map isin xs)" "set A \<subseteq> set xs" "set B \<subseteq> set xs"
    and "\<forall>a\<in>set A. f a = k" "\<forall>b\<in>set B. f b \<noteq> k"
  shows "isin ` set B \<inter> isin ` set A = {}"
proof -
  have inj: "inj_on isin (set xs)" using assms(1) by (simp add: distinct_map)
  have "\<And>v. v \<in> isin ` set B \<Longrightarrow> v \<in> isin ` set A \<Longrightarrow> False"
  proof -
    fix v assume "v \<in> isin ` set B" "v \<in> isin ` set A"
    then obtain a b where ab: "a \<in> set A" "b \<in> set B" "isin a = v" "isin b = v" by auto
    then have "a = b" using inj assms(2,3) by (auto dest: inj_onD)
    then show False using ab assms(4,5) by auto
  qed
  then show ?thesis by blast
qed

lemma process_base9_block:
  assumes c: "clear_of (isin ` set G) st" and len: "2 \<le> length G"
    and eq: "security_type (hd G) = ''01''"
  shows "has_block (isin ` set G)
           (map (ca_row nc ic (last (sort_key serial G))) (sort_key serial G))
           (process_base9 nc ic st (b9, G))"
proof -
  define S where "S = sort_key serial G"
  define rows where "rows = map (ca_row nc ic (last S)) S"
  have "\<forall>i\<in>set G. isin i \<notin> processed_isins st"
  proof
    fix i assume "i \<in> set G"
    then have "isin i \<in> isin ` set G" by (rule imageI)
    then show "isin i \<notin> processed_isins st" using c unfolding clear_of_def by blast
  qed
  then have U: "filter (\<lambda>i. isin i \<notin> processed_isins st) G = G" by (simp add: filter_id_conv)
  have e: "process_base9 nc ic st (b9, G) =
      st\<lparr>corporate_action := corporate_action st @ rows,
         validation_rows := validation_rows st @ rows,
         processed_isins := processed_isins st \<union> set (map isin S)\<rparr>"
    using len eq by (simp add: process_base9_def U S_def rows_def Let_def)
  have io: "map isin_original rows = map isin S" by (simp add: rows_def ca_row_def comp_def)
  have sS: "set (map isin S) = isin ` set G" by (simp add: S_def)
  have im: "isin_original ` set rows = isin ` set G" using io sS by (metis set_map)
  have "\<forall>r\<in>set rows. isin_original r \<in> isin ` set G" using im by (metis imageI)
  then have f2: "filter (\<lambda>r. isin_original r \<in> isin ` set G) rows = rows"
    by (simp add: filter_id_conv)
  have f1: "filter (\<lambda>r. isin_original r \<in> isin ` set G) (corporate_action st) = []"
    using c unfolding clear_of_def by (simp add: filter_empty_conv)
  have ca: "corporate_action (process_base9 nc ic st (b9, G)) = corporate_action st @ rows"
    and pr: "processed_isins (process_base9 nc ic st (b9, G)) =
      processed_isins st \<union> set (map isin S)"
    unfolding e by simp_all
  have 1: "isin ` set G \<subseteq> processed_isins (process_base9 nc ic st (b9, G))"
    unfolding pr sS by blast
  have 2: "filter (\<lambda>r. isin_original r \<in> isin ` set G)
      (corporate_action (process_base9 nc ic st (b9, G))) = rows"
    unfolding ca using f1 f2 by simp
  show ?thesis unfolding has_block_def using 1 2 by (simp add: rows_def S_def)
qed

lemma process_issuer_block:
  assumes c: "clear_of (isin ` set G) st" and len: "2 \<le> length G"
    and eq: "security_type (hd G) = ''01''"
    and G: "G = filter (\<lambda>it. base_9 it = b9) I" and d: "distinct (map isin I)"
  shows "has_block (isin ` set G)
           (map (ca_row nc ic (last (sort_key serial G))) (sort_key serial G))
           (process_issuer nc st (ic, I))"
proof -
  let ?S = "isin ` set G"
  let ?B = "map (ca_row nc ic (last (sort_key serial G))) (sort_key serial G)"
  let ?gs = "group_by base_9 I"
  let ?st1 = "foldl (process_base9 nc ic) st ?gs"
  have "G \<noteq> []" using len by auto
  then obtain x where "x \<in> set G" by (cases G) auto
  then have x: "x \<in> set I" "base_9 x = b9" unfolding G by auto
  have mem: "(b9, G) \<in> set ?gs" using group_by_mem [OF x(1), of base_9] x(2) G by simp
  have GI: "set G \<subseteq> set I" unfolding G by auto
  have Gk: "\<forall>a\<in>set G. base_9 a = b9" unfolding G by simp
  have "length G \<le> length I" unfolding G by (rule length_filter_le)
  then have l2: "\<not> length (remdups (map isin I)) < 2"
    using len d by (simp add: distinct_remdups_id)
  have 1: "has_block ?S ?B ?st1"
  proof (rule foldl_block [OF group_by_distinct_list mem])
    fix h s assume h: "h \<in> set ?gs" "h \<noteq> (b9, G)" and cs: "clear_of ?S s"
    have "fst h \<noteq> b9" using group_by_other [OF h(1)] h(2) G by blast
    then have hk: "\<forall>b\<in>set (snd h). base_9 b \<noteq> b9" using group_by_key [OF h(1)] by auto
    have hI: "set (snd h) \<subseteq> set I" using h(1) by (rule group_by_subset)
    have "isin ` set (snd h) \<inter> ?S = {}" by (rule disjoint_groups [OF d GI hI Gk hk])
    then show "clear_of ?S (process_base9 nc ic s h)"
      by (rule clear_of_step [OF cs process_base9_step])
  next
    fix h s assume "has_block ?S ?B s"
    then show "has_block ?S ?B (process_base9 nc ic s h)"
      by (rule has_block_step [OF _ process_base9_step])
  next
    fix s assume "clear_of ?S s"
    then show "has_block ?S ?B (process_base9 nc ic s (b9, G))"
      by (rule process_base9_block [OF _ len eq])
  next
    show "clear_of ?S st" by (rule c)
  qed
  have 2: "has_block ?S ?B (process_cds nc ic I ?st1)"
    by (rule has_block_step [OF 1 process_cds_step])
  have 3: "has_block ?S ?B (process_cps nc ic I (process_cds nc ic I ?st1))"
    by (rule has_block_step [OF 2 process_cps_step])
  have e: "process_issuer nc st (ic, I) = process_cps nc ic I (process_cds nc ic I ?st1)"
    using l2 by (simp add: process_issuer_def)
  show ?thesis unfolding e by (rule 3)
qed

lemma take_drop_39: "take 4 (drop 3 (take 9 s)) = take 4 (drop 3 s)"
  by (simp add: drop_take take_take)

lemma process_name_group_block:
  assumes c: "clear_of (isin ` set G) st" and len: "2 \<le> length G"
    and eq: "security_type (hd G) = ''01''"
    and G: "G = filter (\<lambda>it. base_9 it = b9) N" and d: "distinct (map isin N)"
    and ok: "\<forall>it\<in>set N. parsed_ok it"
  shows "has_block (isin ` set G)
           (map (ca_row nc (take 4 (drop 3 b9)) (last (sort_key serial G))) (sort_key serial G))
           (process_name_group st (nc, N))"
proof -
  define ic where "ic = take 4 (drop 3 b9)"
  define I where "I = filter (\<lambda>it. issuer_code it = ic) N"
  let ?S = "isin ` set G"
  let ?B = "map (ca_row nc ic (last (sort_key serial G))) (sort_key serial G)"
  let ?gs = "group_by issuer_code N"
  let ?st1 = "foldl (process_issuer nc) st ?gs"
  have iss: "\<And>y. y \<in> set N \<Longrightarrow> base_9 y = b9 \<Longrightarrow> issuer_code y = ic"
  proof -
    fix y assume "y \<in> set N" "base_9 y = b9"
    then have "issuer_code y = take 4 (drop 3 (isin y))" "b9 = take 9 (isin y)"
      using ok by (auto simp: parsed_ok_def)
    then show "issuer_code y = ic" by (simp add: ic_def take_drop_39)
  qed
  have "filter (\<lambda>it. base_9 it = b9) I =
      filter (\<lambda>it. issuer_code it = ic \<and> base_9 it = b9) N"
    by (simp add: I_def)
  also have "\<dots> = filter (\<lambda>it. base_9 it = b9) N"
    by (rule filter_cong) (auto simp: iss)
  finally have GI: "G = filter (\<lambda>it. base_9 it = b9) I" using G by simp
  have "G \<noteq> []" using len by auto
  then obtain x where "x \<in> set G" by (cases G) auto
  then have x: "x \<in> set N" "base_9 x = b9" unfolding G by auto
  then have xi: "issuer_code x = ic" by (rule iss)
  have mem: "(ic, I) \<in> set ?gs" using group_by_mem [OF x(1), of issuer_code] xi I_def by simp
  have GN: "set G \<subseteq> set N" unfolding G by auto
  have Gk: "\<forall>a\<in>set G. issuer_code a = ic" using iss unfolding G by simp
  have dI: "distinct (map isin I)" using d by (simp add: I_def distinct_map_filter)
  have ln: "length G \<le> length N" unfolding G by (rule length_filter_le)
  then have l1: "\<not> length N < 2" using len by simp
  have l2: "\<not> length (remdups (map isin N)) < 2"
    using len d ln by (simp add: distinct_remdups_id)
  have 1: "has_block ?S ?B ?st1"
  proof (rule foldl_block [OF group_by_distinct_list mem])
    fix h s assume h: "h \<in> set ?gs" "h \<noteq> (ic, I)" and cs: "clear_of ?S s"
    have "fst h \<noteq> ic" using group_by_other [OF h(1)] h(2) I_def by blast
    then have hk: "\<forall>b\<in>set (snd h). issuer_code b \<noteq> ic" using group_by_key [OF h(1)] by auto
    have hN: "set (snd h) \<subseteq> set N" using h(1) by (rule group_by_subset)
    have "isin ` set (snd h) \<inter> ?S = {}" by (rule disjoint_groups [OF d GN hN Gk hk])
    then show "clear_of ?S (process_issuer nc s h)"
      by (rule clear_of_step [OF cs process_issuer_step])
  next
    fix h s assume "has_block ?S ?B s"
    then show "has_block ?S ?B (process_issuer nc s h)"
      by (rule has_block_step [OF _ process_issuer_step])
  next
    fix s assume "clear_of ?S s"
    then show "has_block ?S ?B (process_issuer nc s (ic, I))"
      by (rule process_issuer_block [OF _ len eq GI dI])
  next
    show "clear_of ?S st" by (rule c)
  qed
  have 2: "has_block ?S ?B (foldl (no_action_issuer nc) ?st1 ?gs)"
    by (rule has_block_step [OF 1 no_action_issuers_step])
  have "process_name_group st (nc, N) = ?st1 \<or>
      process_name_group st (nc, N) = foldl (no_action_issuer nc) ?st1 ?gs"
    using l1 l2 by (simp add: process_name_group_def Let_def)
  then have "has_block ?S ?B (process_name_group st (nc, N))" using 1 2 by auto
  then show ?thesis by (simp only: ic_def)
qed

lemma goi_processed:
  assumes d: "distinct (map isin data)" and i: "it \<in> set data"
  shows "isin it \<in> processed_isins (goi_pass data) \<longleftrightarrow> is_goi it"
proof -
  have inj: "inj_on isin (set data)" using d by (simp add: distinct_map)
  have p: "processed_isins (goi_pass data) =
      isin ` {x \<in> set data. detect_goi_security (name x) = Some ''TBILL''} \<union>
      isin ` {x \<in> set data. detect_goi_security (name x) = Some ''GSEC''}"
    by (simp add: goi_pass_def Let_def)
  show ?thesis
  proof
    assume "isin it \<in> processed_isins (goi_pass data)"
    then obtain x where x: "x \<in> set data" "isin x = isin it"
      "detect_goi_security (name x) = Some ''TBILL'' \<or> detect_goi_security (name x) = Some ''GSEC''"
      unfolding p by auto
    then have "x = it" using inj i by (auto dest: inj_onD)
    then show "is_goi it" using x(3) by (simp add: is_goi_def)
  next
    assume "is_goi it"
    then have "it \<in> {x \<in> set data. detect_goi_security (name x) = Some ''TBILL''} \<or>
        it \<in> {x \<in> set data. detect_goi_security (name x) = Some ''GSEC''}"
      using i by (auto simp: is_goi_def)
    then show "isin it \<in> processed_isins (goi_pass data)" unfolding p by blast
  qed
qed

lemma run_engine_block:
  assumes d: "distinct (map isin data)" and ok: "\<forall>it\<in>set data. parsed_ok it"
    and nc: "nc \<noteq> []" and G: "G = ca_group data nc b9"
    and len: "2 \<le> length G" and eq: "security_type (hd G) = ''01''"
  shows "has_block (isin ` set G)
           (map (ca_row nc (take 4 (drop 3 b9)) (last (sort_key serial G))) (sort_key serial G))
           (run_engine data)"
proof -
  define F where "F = filter (\<lambda>it. name_cut it \<noteq> [] \<and> isin it \<notin> processed_isins (goi_pass data)) data"
  define N where "N = filter (\<lambda>it. name_cut it = nc) F"
  let ?S = "isin ` set G"
  let ?B = "map (ca_row nc (take 4 (drop 3 b9)) (last (sort_key serial G))) (sort_key serial G)"
  let ?gs = "sort_key fst (group_by name_cut F)"
  have "filter (\<lambda>it. base_9 it = b9) N =
      filter (\<lambda>it. (name_cut it \<noteq> [] \<and> isin it \<notin> processed_isins (goi_pass data)) \<and>
                    name_cut it = nc \<and> base_9 it = b9) data"
    by (simp add: N_def F_def)
  also have "\<dots> = filter (\<lambda>it. name_cut it = nc \<and> base_9 it = b9 \<and> \<not> is_goi it) data"
    by (rule filter_cong) (auto simp: goi_processed [OF d] nc)
  finally have GN: "G = filter (\<lambda>it. base_9 it = b9) N" using G by (simp add: ca_group_def)
  have Fd: "set F \<subseteq> set data" by (auto simp: F_def)
  have dF: "distinct (map isin F)" using d by (simp add: F_def distinct_map_filter)
  have dN: "distinct (map isin N)" using dF by (simp add: N_def distinct_map_filter)
  have okN: "\<forall>it\<in>set N. parsed_ok it" using ok by (auto simp: N_def F_def)
  have "G \<noteq> []" using len by auto
  then obtain x where "x \<in> set G" by (cases G) auto
  then have x: "x \<in> set N" unfolding GN by auto
  then have xF: "x \<in> set F" "name_cut x = nc" by (auto simp: N_def)
  have "(nc, N) \<in> set (group_by name_cut F)"
    using group_by_mem [OF xF(1), of name_cut] xF(2) N_def by simp
  then have mem: "(nc, N) \<in> set ?gs" by simp
  have dg: "distinct ?gs" using group_by_distinct_list [of name_cut F] by simp
  have GF: "set G \<subseteq> set F" unfolding GN N_def by auto
  have Gk: "\<forall>a\<in>set G. name_cut a = nc" unfolding GN N_def by simp
  have c0: "clear_of ?S (goi_pass data)"
  proof -
    have "\<And>v. v \<in> ?S \<Longrightarrow> v \<notin> processed_isins (goi_pass data)"
    proof -
      fix v assume "v \<in> ?S"
      then obtain y where "y \<in> set G" "v = isin y" by auto
      then have "y \<in> set F" "v = isin y" using GF by auto
      then show "v \<notin> processed_isins (goi_pass data)" by (simp add: F_def)
    qed
    then have "?S \<inter> processed_isins (goi_pass data) = {}" by blast
    moreover have "corporate_action (goi_pass data) = []" by (simp add: goi_pass_def Let_def)
    ultimately show ?thesis by (simp add: clear_of_def)
  qed
  have "has_block ?S ?B (foldl process_name_group (goi_pass data) ?gs)"
  proof (rule foldl_block [OF dg mem])
    fix h s assume h: "h \<in> set ?gs" "h \<noteq> (nc, N)" and cs: "clear_of ?S s"
    have h': "h \<in> set (group_by name_cut F)" using h(1) by simp
    have "fst h \<noteq> nc" using group_by_other [OF h'] h(2) N_def by blast
    then have hk: "\<forall>b\<in>set (snd h). name_cut b \<noteq> nc" using group_by_key [OF h'] by auto
    have hF: "set (snd h) \<subseteq> set F" using h' by (rule group_by_subset)
    have "isin ` set (snd h) \<inter> ?S = {}" by (rule disjoint_groups [OF dF GF hF Gk hk])
    then show "clear_of ?S (process_name_group s h)"
      by (rule clear_of_step [OF cs process_name_group_step])
  next
    fix h s assume "has_block ?S ?B s"
    then show "has_block ?S ?B (process_name_group s h)"
      by (rule has_block_step [OF _ process_name_group_step])
  next
    fix s assume "clear_of ?S s"
    then show "has_block ?S ?B (process_name_group s (nc, N))"
      by (rule process_name_group_block [OF _ len eq GN dN okN])
  next
    show "clear_of ?S (goi_pass data)" by (rule c0)
  qed
  then show ?thesis by (simp add: run_engine_def name_groups_of_def F_def)
qed

lemma two_names_run:
  "corporate_action (detect_and_categorize (load_holdings_data two_names_fetched)) =
   two_names_rows"
  by code_simp

text \<open>
  Claim C2 as stated fails. The engine does not form its CORPORATE\_ACTION groups by the base
  prefix alone: step 1 groups the items by the 7-character name cut, and only within a name
  group are the items grouped by issuer and base prefix. Four equity identifiers of the one
  base prefix \<open>INE012A01\<close>, under two names: each name group gets a canonical row of its own,
  so the base prefix has two canonical rows, \<open>INE012A01023\<close> is canonical without the highest
  serial of the base prefix, and \<open>INE012A01015\<close> is not mapped to \<open>INE012A01049\<close>.
\<close>

theorem base_prefix_two_targets_counterexample:
  "map isin_original
     (corporate_action (detect_and_categorize (load_holdings_data two_names_fetched))) =
     [''INE012A01015'', ''INE012A01023'', ''INE012A01031'', ''INE012A01049''] \<and>
   map action
     (corporate_action (detect_and_categorize (load_holdings_data two_names_fetched))) =
     [''MAP'', ''TARGET'', ''MAP'', ''TARGET''] \<and>
   map is_target
     (corporate_action (detect_and_categorize (load_holdings_data two_names_fetched))) =
     [False, True, False, True] \<and>
   map isin_mapped
     (corporate_action (detect_and_categorize (load_holdings_data two_names_fetched))) =
     [''INE012A01023'', ''INE012A01023'', ''INE012A01049'', ''INE012A01049'']"
  unfolding two_names_run by (simp add: two_names_rows_def)

text \<open>
  Claim C2, amended. On the rows that the ledger query returns (one for each identifier),
  take the items that share a name cut (not empty) and a 9-character base prefix, the ones
  that the pre-step records as Government of India securities apart. If they are at least two
  and equity (security type 01), then one member \<open>t\<close> is canonical. The serial of every
  member is at most that of \<open>t\<close>, in string order, which is the numeric order when the serials
  are two digits. Every member has a CORPORATE\_ACTION row, and no other row in any category
  (the identifiers of the rows of all categories are pairwise different). The row of a member
  carries the identifier of \<open>t\<close> as \<open>isin_mapped\<close> and the first 60 characters of the name of
  \<open>t\<close> as \<open>name_mapped\<close>; it is marked \<open>is_target\<close> with action TARGET if the member is \<open>t\<close>,
  and has action MAP otherwise. So exactly one row of the group is canonical.
\<close>

theorem corporate_action_group:
  assumes dist: "distinct (map f_isin_assigned fetched_rows)"
    and data: "data = load_holdings_data fetched_rows"
    and res: "res = detect_and_categorize data"
    and nc: "nc \<noteq> []"
    and G: "G = ca_group data nc b9"
    and len: "2 \<le> length G"
    and eq: "\<forall>it\<in>set G. security_type it = ''01''"
  shows "\<exists>t\<in>set G.
     (\<forall>it\<in>set G. serial it \<le> serial t \<and>
        (two_digits (serial it) \<and> two_digits (serial t) \<longrightarrow>
           serial_number (serial it) \<le> serial_number (serial t))) \<and>
     (\<forall>it\<in>set G. \<exists>r\<in>set (corporate_action res). isin_original r = isin it) \<and>
     (\<forall>r\<in>set (all_rows res). isin_original r \<in> isin ` set G \<longrightarrow>
        r \<in> set (corporate_action res) \<and> category r = ''CORPORATE_ACTION'' \<and>
        isin_mapped r = isin t \<and> name_mapped r = take 60 (name t) \<and>
        (is_target r \<longleftrightarrow> isin_original r = isin t) \<and>
        action r = (if isin_original r = isin t then ''TARGET'' else ''MAP'')) \<and>
     distinct (map isin_original (all_rows res))"
proof -
  let ?st = "run_engine data"
  let ?V = "validation_rows ?st"
  define S where "S = sort_key serial G"
  define t where "t = last S"
  define ic where "ic = take 4 (drop 3 b9)"
  have d: "distinct (map isin data)" unfolding data using dist by (rule load_holdings_data_distinct)
  have ok: "\<forall>it\<in>set data. parsed_ok it" unfolding data by (rule load_holdings_data_ok)
  have ne: "G \<noteq> []" using len by auto
  then have "hd G \<in> set G" by simp
  then have eq': "security_type (hd G) = ''01''" using eq by blast
  have blk: "has_block (isin ` set G) (map (ca_row nc ic t) S) ?st"
    unfolding ic_def t_def S_def by (rule run_engine_block [OF d ok nc G len eq'])
  have inv: "engine_inv data ?st" unfolding data using engine_inv_loaded [OF dist] .
  then have l: "lists_inv ?st" and dV: "distinct (map isin_original ?V)"
    by (simp_all add: engine_inv_def part_inv_def)
  have f: "corporate_action res = corporate_action ?st" "cd_aggregate res = cd_aggregate ?st"
    "cp_aggregate res = cp_aggregate ?st" "tbill_aggregate res = tbill_aggregate ?st"
    "gsec_aggregate res = gsec_aggregate ?st" "no_action res = no_action ?st"
    by (simp_all add: res detect_and_categorize_def truncate_fields)
  have ar: "all_rows res = all_rows ?st" by (simp add: all_rows_def f)
  have dA: "distinct (map isin_original (all_rows res))"
    unfolding ar using distinct_all_rows [OF dV] l by (simp add: all_rows_def lists_inv_def)
  then have inj: "inj_on isin_original (set (all_rows res))" by (simp add: distinct_map)
  have sS: "set S = set G" by (simp add: S_def)
  have "S \<noteq> []" using ne sS by auto
  then have "t \<in> set S" unfolding t_def by simp
  then have tG: "t \<in> set G" using sS by simp
  have srt: "sorted (map serial S)" unfolding S_def by (rule sorted_sort_key)
  have mx: "\<forall>it\<in>set G. serial it \<le> serial t \<and>
        (two_digits (serial it) \<and> two_digits (serial t) \<longrightarrow>
           serial_number (serial it) \<le> serial_number (serial t))"
  proof
    fix it assume "it \<in> set G"
    then have "it \<in> set S" using sS by simp
    then have "serial it \<le> serial t" unfolding t_def using sorted_last_max [OF srt] by blast
    then show "serial it \<le> serial t \<and>
        (two_digits (serial it) \<and> two_digits (serial t) \<longrightarrow>
           serial_number (serial it) \<le> serial_number (serial t))"
      using serial_number_mono by blast
  qed
  have fl: "filter (\<lambda>r. isin_original r \<in> isin ` set G) (corporate_action res) =
      map (ca_row nc ic t) S"
    using blk by (simp add: has_block_def f)
  have row: "\<And>it. it \<in> set G \<Longrightarrow> ca_row nc ic t it \<in> set (corporate_action res)"
  proof -
    fix it assume "it \<in> set G"
    then have "ca_row nc ic t it \<in> set (map (ca_row nc ic t) S)" using sS by simp
    then have "ca_row nc ic t it \<in>
        set (filter (\<lambda>r. isin_original r \<in> isin ` set G) (corporate_action res))"
      unfolding fl .
    then show "ca_row nc ic t it \<in> set (corporate_action res)" by simp
  qed
  have ex: "\<forall>it\<in>set G. \<exists>r\<in>set (corporate_action res). isin_original r = isin it"
  proof
    fix it assume "it \<in> set G"
    then have "ca_row nc ic t it \<in> set (corporate_action res)" by (rule row)
    moreover have "isin_original (ca_row nc ic t it) = isin it" by (simp add: ca_row_def)
    ultimately show "\<exists>r\<in>set (corporate_action res). isin_original r = isin it" by blast
  qed
  have casub: "set (corporate_action res) \<subseteq> set (all_rows res)" by (auto simp: all_rows_def)
  have un: "\<forall>r\<in>set (all_rows res). isin_original r \<in> isin ` set G \<longrightarrow>
        r \<in> set (corporate_action res) \<and> category r = ''CORPORATE_ACTION'' \<and>
        isin_mapped r = isin t \<and> name_mapped r = take 60 (name t) \<and>
        (is_target r \<longleftrightarrow> isin_original r = isin t) \<and>
        action r = (if isin_original r = isin t then ''TARGET'' else ''MAP'')"
  proof (intro ballI impI)
    fix r assume r: "r \<in> set (all_rows res)" and "isin_original r \<in> isin ` set G"
    then obtain it where it: "it \<in> set G" "isin_original r = isin it" by auto
    have m: "ca_row nc ic t it \<in> set (corporate_action res)" using it(1) by (rule row)
    have "isin_original (ca_row nc ic t it) = isin_original r"
      using it(2) by (simp add: ca_row_def)
    then have e: "r = ca_row nc ic t it"
      using inj r m casub by (metis inj_onD subsetD)
    show "r \<in> set (corporate_action res) \<and> category r = ''CORPORATE_ACTION'' \<and>
        isin_mapped r = isin t \<and> name_mapped r = take 60 (name t) \<and>
        (is_target r \<longleftrightarrow> isin_original r = isin t) \<and>
        action r = (if isin_original r = isin t then ''TARGET'' else ''MAP'')"
      using m unfolding e by (simp add: ca_row_def)
  qed
  show ?thesis using tG mx ex un dA by blast
qed

lemma syn_not_in: "startswith a ''SYN'' \<Longrightarrow> startswith b ''IN'' \<Longrightarrow> a \<noteq> b"
  by (auto simp: startswith_def prefix_def)

lemma in_agg_list:
  assumes "lists_inv st"
    "r \<in> set (cd_aggregate st) \<or> r \<in> set (cp_aggregate st) \<or>
     r \<in> set (tbill_aggregate st) \<or> r \<in> set (gsec_aggregate st)"
  shows "r \<in> set (validation_rows st) \<and>
         category r \<in> {''CD_AGGREGATE'', ''CP_AGGREGATE'', ''TBILL_AGGREGATE'', ''GSEC_AGGREGATE''}"
  using assms by (auto simp: lists_inv_def by_category_def)

text \<open>
  Claim C10. For a ledger of valid identifiers (each starts with "IN", as \<open>assign_isin\<close>
  makes them), no line of the mapping file maps an identifier to itself: a MAP row maps to
  the canonical identifier of its group, which is another one, and an AGGREGATE row maps
  to an identifier that starts with "SYN".
\<close>

theorem mapping_never_identity:
  assumes "distinct (map f_isin_assigned fetched_rows)"
    and "\<forall>f\<in>set fetched_rows. startswith (f_isin_assigned f) ''IN''"
  shows "\<forall>fields\<in>set (mapping_rows (detect_and_categorize (load_holdings_data fetched_rows))).
           length fields = 5 \<and> fields ! 1 \<noteq> fields ! 0"
proof -
  let ?data = "load_holdings_data fetched_rows"
  let ?st = "run_engine ?data"
  let ?V = "validation_rows ?st"
  have inv: "engine_inv ?data ?st" using engine_inv_loaded [OF assms(1)] .
  then have l: "lists_inv ?st" and ri: "\<forall>x\<in>set ?V. row_ok ?data ?V x"
    by (simp_all add: engine_inv_def part_inv_def rows_inv_def)
  have src: "\<And>x. x \<in> set ?V \<Longrightarrow> startswith (isin_original x) ''IN''"
  proof -
    fix x assume "x \<in> set ?V"
    then have "isin_original x \<in> isin ` set ?data" using ri by (simp add: row_ok_def)
    then obtain it where "it \<in> set ?data" "isin_original x = isin it" by auto
    then obtain f where "f \<in> set fetched_rows" "isin_original x = f_isin_assigned f"
      using load_holdings_data_isin by metis
    then show "startswith (isin_original x) ''IN''" using assms(2) by simp
  qed
  have agg: "\<And>x. x \<in> set (cd_aggregate ?st) \<or> x \<in> set (cp_aggregate ?st) \<or>
     x \<in> set (tbill_aggregate ?st) \<or> x \<in> set (gsec_aggregate ?st) \<Longrightarrow>
     isin_mapped x \<noteq> isin_original x"
  proof -
    fix x assume "x \<in> set (cd_aggregate ?st) \<or> x \<in> set (cp_aggregate ?st) \<or>
     x \<in> set (tbill_aggregate ?st) \<or> x \<in> set (gsec_aggregate ?st)"
    from in_agg_list [OF l this] have x: "x \<in> set ?V"
      "category x \<in> {''CD_AGGREGATE'', ''CP_AGGREGATE'', ''TBILL_AGGREGATE'', ''GSEC_AGGREGATE''}"
      by auto
    then have "startswith (isin_mapped x) ''SYN''" using ri unfolding row_ok_def by blast
    then show "isin_mapped x \<noteq> isin_original x" using src [OF x(1)] syn_not_in by blast
  qed
  have ca: "\<And>x. x \<in> set (corporate_action ?st) \<Longrightarrow> action x = ''MAP'' \<Longrightarrow>
     isin_mapped x \<noteq> isin_original x"
  proof -
    fix x assume "x \<in> set (corporate_action ?st)" and mp: "action x = ''MAP''"
    from in_ca_list [OF l this(1)] have "x \<in> set ?V" "category x = ''CORPORATE_ACTION''" by auto
    then have "ca_ok ?V x" using ri by (simp add: row_ok_def)
    then show "isin_mapped x \<noteq> isin_original x" using mp unfolding ca_ok_def by metis
  qed
  show ?thesis
  proof
    fix fields
    assume "fields \<in> set (mapping_rows (detect_and_categorize ?data))"
    then obtain x tag where f: "fields = mapping_fields tag x"
      and x: "(x \<in> set (corporate_action ?st) \<and> action x = ''MAP'') \<or>
          x \<in> set (cd_aggregate ?st) \<or> x \<in> set (cp_aggregate ?st) \<or>
          x \<in> set (tbill_aggregate ?st) \<or> x \<in> set (gsec_aggregate ?st)"
      by (auto simp: mapping_rows_def detect_and_categorize_def truncate_fields)
    from x have "isin_mapped x \<noteq> isin_original x" using ca agg by blast
    then show "length fields = 5 \<and> fields ! 1 \<noteq> fields ! 0"
      by (simp add: f mapping_fields_def)
  qed
qed

lemma sample_distinct: "distinct (map f_isin_assigned sample_fetched)"
  by (simp add: sample_fetched_def)

lemma sample_valid: "\<forall>f\<in>set sample_fetched. startswith (f_isin_assigned f) ''IN''"
  by (simp add: sample_fetched_def startswith_def)

lemma sample_run: "detect_and_categorize (load_holdings_data sample_fetched) = sample_results"
  by code_simp

lemmas sample_rows_defs =
  sample_results_def sample_mapped_row_def sample_target_row_def sample_cd_row_def
  sample_tbill_row_def

theorem categories_partition_witness:
  "distinct (map isin_original (all_rows (detect_and_categorize (load_holdings_data sample_fetched)))) \<and>
   tags_ok (detect_and_categorize (load_holdings_data sample_fetched)) \<and>
   map category (all_rows (detect_and_categorize (load_holdings_data sample_fetched))) =
     [''CORPORATE_ACTION'', ''CORPORATE_ACTION'', ''CD_AGGREGATE'', ''CD_AGGREGATE'', ''TBILL_AGGREGATE'']"
proof -
  have "map category (all_rows (detect_and_categorize (load_holdings_data sample_fetched))) =
     [''CORPORATE_ACTION'', ''CORPORATE_ACTION'', ''CD_AGGREGATE'', ''CD_AGGREGATE'', ''TBILL_AGGREGATE'']"
    by (simp add: sample_run all_rows_def sample_rows_defs)
  then show ?thesis using categories_partition [OF sample_distinct] by blast
qed

lemma sample_group:
  "map (\<lambda>it. (isin it, serial it))
     (ca_group (load_holdings_data sample_fetched) ''acmeind'' ''INE012A01'') =
   [(''INE012A01015'', ''01''), (''INE012A01023'', ''02'')]"
  by code_simp

lemma sample_group_equity:
  "\<forall>it\<in>set (ca_group (load_holdings_data sample_fetched) ''acmeind'' ''INE012A01'').
     security_type it = ''01''"
  by code_simp

theorem corporate_action_group_witness:
  "\<exists>t. t \<in> set (ca_group (load_holdings_data sample_fetched) ''acmeind'' ''INE012A01'') \<and>
       isin t = ''INE012A01023'' \<and>
       (\<exists>r. r \<in> set (corporate_action (detect_and_categorize (load_holdings_data sample_fetched))) \<and>
            isin_original r = ''INE012A01015'' \<and> isin_mapped r = ''INE012A01023'' \<and>
            name_mapped r = take 60 (name t) \<and> action r = ''MAP'' \<and> \<not> is_target r) \<and>
       (\<exists>r. r \<in> set (corporate_action (detect_and_categorize (load_holdings_data sample_fetched))) \<and>
            isin_original r = ''INE012A01023'' \<and> isin_mapped r = ''INE012A01023'' \<and>
            action r = ''TARGET'' \<and> is_target r)"
proof -
  let ?data = "load_holdings_data sample_fetched"
  let ?res = "detect_and_categorize ?data"
  let ?G = "ca_group ?data ''acmeind'' ''INE012A01''"
  have len: "2 \<le> length ?G"
  proof -
    have "length (map (\<lambda>it. (isin it, serial it)) ?G) = 2" unfolding sample_group by simp
    then show ?thesis by simp
  qed
  have nc: "''acmeind'' \<noteq> []" by simp
  from corporate_action_group [OF sample_distinct refl refl nc refl len sample_group_equity]
  obtain t where t: "t \<in> set ?G"
    and mx: "\<forall>it\<in>set ?G. serial it \<le> serial t"
    and ex: "\<forall>it\<in>set ?G. \<exists>r\<in>set (corporate_action ?res). isin_original r = isin it"
    and un: "\<forall>r\<in>set (all_rows ?res). isin_original r \<in> isin ` set ?G \<longrightarrow>
        r \<in> set (corporate_action ?res) \<and> category r = ''CORPORATE_ACTION'' \<and>
        isin_mapped r = isin t \<and> name_mapped r = take 60 (name t) \<and>
        (is_target r \<longleftrightarrow> isin_original r = isin t) \<and>
        action r = (if isin_original r = isin t then ''TARGET'' else ''MAP'')"
    by blast
  have mem: "set (map (\<lambda>it. (isin it, serial it)) ?G) =
      {(''INE012A01015'', ''01''), (''INE012A01023'', ''02'')}"
    unfolding sample_group by simp
  then obtain a b where ab: "a \<in> set ?G" "isin a = ''INE012A01015''"
    "b \<in> set ?G" "isin b = ''INE012A01023''" "serial b = ''02''"
    by (auto simp: set_eq_iff image_iff) metis
  have "(isin t, serial t) \<in> set (map (\<lambda>it. (isin it, serial it)) ?G)" using t by simp
  then have tc: "(isin t = ''INE012A01015'' \<and> serial t = ''01'') \<or>
      (isin t = ''INE012A01023'' \<and> serial t = ''02'')"
    unfolding mem by simp
  have "''02'' \<le> serial t" using mx ab(3,5) by force
  moreover have "\<not> ''02'' \<le> ''01''" by code_simp
  ultimately have it: "isin t = ''INE012A01023''" using tc by auto
  have casub: "set (corporate_action ?res) \<subseteq> set (all_rows ?res)" by (auto simp: all_rows_def)
  from ex ab(1,2) obtain ra where ra: "ra \<in> set (corporate_action ?res)"
    "isin_original ra = ''INE012A01015''" by force
  from ex ab(3,4) obtain rb where rb: "rb \<in> set (corporate_action ?res)"
    "isin_original rb = ''INE012A01023''" by force
  have ina: "ra \<in> set (all_rows ?res)" using ra(1) casub by blast
  have "isin_original ra \<in> isin ` set ?G" using ab(1,2) ra(2) by (metis imageI)
  with un ina have "isin_mapped ra = isin t \<and> name_mapped ra = take 60 (name t) \<and>
        (is_target ra \<longleftrightarrow> isin_original ra = isin t) \<and>
        action ra = (if isin_original ra = isin t then ''TARGET'' else ''MAP'')" by blast
  then have pa: "isin_mapped ra = ''INE012A01023''" "name_mapped ra = take 60 (name t)"
    "action ra = ''MAP''" "\<not> is_target ra"
    by (simp_all add: ra(2) it)
  have inb: "rb \<in> set (all_rows ?res)" using rb(1) casub by blast
  have "isin_original rb \<in> isin ` set ?G" using ab(3,4) rb(2) by (metis imageI)
  with un inb have "isin_mapped rb = isin t \<and>
        (is_target rb \<longleftrightarrow> isin_original rb = isin t) \<and>
        action rb = (if isin_original rb = isin t then ''TARGET'' else ''MAP'')" by blast
  then have pb: "isin_mapped rb = ''INE012A01023''" "action rb = ''TARGET''" "is_target rb"
    by (simp_all add: rb(2) it)
  show ?thesis using t it ra pa rb pb by blast
qed

theorem mapping_never_identity_witness:
  "map (\<lambda>fields. (fields ! 0, fields ! 1))
     (mapping_rows (detect_and_categorize (load_holdings_data sample_fetched))) =
     [(''INE012A01015'', ''INE012A01023''), (''INE045B16011'', ''SYN045BCD01''),
      (''INE045B16029'', ''SYN045BCD01''), (''IN0020230010'', ''SYNGOITBILL01'')] \<and>
   list_all (\<lambda>fields. length fields = 5 \<and> fields ! 1 \<noteq> fields ! 0)
     (mapping_rows (detect_and_categorize (load_holdings_data sample_fetched)))"
proof -
  have "map (\<lambda>fields. (fields ! 0, fields ! 1))
     (mapping_rows (detect_and_categorize (load_holdings_data sample_fetched))) =
     [(''INE012A01015'', ''INE012A01023''), (''INE045B16011'', ''SYN045BCD01''),
      (''INE045B16029'', ''SYN045BCD01''), (''IN0020230010'', ''SYNGOITBILL01'')]"
    by (simp add: sample_run mapping_rows_def mapping_fields_def sample_rows_defs)
  then show ?thesis
    using mapping_never_identity [OF sample_distinct sample_valid] by (simp add: list_all_iff)
qed

section \<open>Properties of the round trip of the mapping artifact\<close>


















































end
